theory Spec2Isabelle
  imports Main "HOL-Library.Multiset"
begin

section \<open>Views, failures and data-parallel loops\<close>

text \<open>
  A rank-1 \<^verbatim>\<open>Kokkos::View\<close> is a list of its elements. Index and count values
  (\<^verbatim>\<open>int\<close>, \<^verbatim>\<open>std::size_t\<close>) are integers of HOL. In the communication routines
  and in \<^verbatim>\<open>filterResults\<close> the buffers are taken to hold fewer than \<open>2^31\<close> items, so
  that their extents and offsets fit an \<^verbatim>\<open>int\<close>. Where a scalar argument alone reaches
  the limit of \<^verbatim>\<open>int\<close> (the query count of \<^verbatim>\<open>countResults\<close>, the index of
  \<^verbatim>\<open>AccessTraits::get\<close>) the 32-bit arithmetic of the source is written out.
  Reading or writing a view outside its extent is undefined behaviour in C++; the model
  makes it the failure \<open>OutOfBounds\<close>, so that a result \<open>Inr\<close> says that every
  access of the run was inside its view.
\<close>

datatype error = OutOfBounds | AssertionFailed | BadAlloc | InvalidRank | PeerFailed
  | SignedOverflow

definition ebind :: "error + 'a \<Rightarrow> ('a \<Rightarrow> error + 'b) \<Rightarrow> error + 'b" where
  "ebind m f = (case m of Inl e \<Rightarrow> Inl e | Inr x \<Rightarrow> f x)"

text \<open>
  \<^verbatim>\<open>int\<close> is the 32-bit two's complement integer, from \<open>- 2^31\<close> to \<open>2^31 - 1\<close>.
  Converting an integer value to \<^verbatim>\<open>int\<close> (the initialisation of an \<^verbatim>\<open>int\<close> from a
  \<^verbatim>\<open>std::size_t\<close>, the cast \<^verbatim>\<open>(int)index\<close>) keeps the value modulo \<open>2^32\<close>.
\<close>

definition int_cast :: "int \<Rightarrow> int" where
  "int_cast x = (x + 2 ^ 31) mod 2 ^ 32 - 2 ^ 31"

text \<open>
  \<^verbatim>\<open>a + b\<close> on two \<^verbatim>\<open>int\<close> operands. A sum that is no \<^verbatim>\<open>int\<close> is undefined
  behaviour in C++; the model makes it the failure \<open>SignedOverflow\<close>.
\<close>

definition int_add :: "int \<Rightarrow> int \<Rightarrow> error + int" where
  "int_add a b =
     (if - (2 ^ 31) \<le> a + b \<and> a + b < 2 ^ 31 then Inr (a + b) else Inl SignedOverflow)"

text \<open>\<^verbatim>\<open>v(i)\<close> as a read.\<close>

definition at :: "'a list \<Rightarrow> int \<Rightarrow> error + 'a" where
  "at v i = (if 0 \<le> i \<and> i < int (length v) then Inr (v ! nat i) else Inl OutOfBounds)"

text \<open>\<^verbatim>\<open>v(i) = x\<close> as a write.\<close>

definition assign :: "'a list \<Rightarrow> int \<Rightarrow> 'a \<Rightarrow> error + 'a list" where
  "assign v i x = (if 0 \<le> i \<and> i < int (length v) then Inr (v[nat i := x]) else Inl OutOfBounds)"

text \<open>
  \<^verbatim>\<open>Kokkos::parallel_for\<close> over \<^verbatim>\<open>RangePolicy(space, 0, n)\<close>: the body runs once for
  every index of \<open>[0, n)\<close>; an empty range runs nothing. The iterations are run one after
  the other, in ascending order; a failing iteration fails the loop.
\<close>

fun iterate :: "int list \<Rightarrow> (int \<Rightarrow> 's \<Rightarrow> error + 's) \<Rightarrow> 's \<Rightarrow> error + 's" where
  "iterate [] body s = Inr s"
| "iterate (i # is) body s = ebind (body i s) (iterate is body)"

definition parallel_for :: "int \<Rightarrow> (int \<Rightarrow> 's \<Rightarrow> error + 's) \<Rightarrow> 's \<Rightarrow> error + 's" where
  "parallel_for n body s = iterate (map int [0..<nat n]) body s"

text \<open>The inner loop \<^verbatim>\<open>for (int i = lo; i < hi; ++i)\<close>.\<close>

definition for_range :: "int \<Rightarrow> int \<Rightarrow> (int \<Rightarrow> 's \<Rightarrow> error + 's) \<Rightarrow> 's \<Rightarrow> error + 's" where
  "for_range lo hi body s = iterate [lo..hi - 1] body s"

text \<open>\<^verbatim>\<open>Kokkos::realloc(view_alloc(space), v, n)\<close> and a view constructed without
  \<^verbatim>\<open>WithoutInitializing\<close>: \<open>n\<close> value-initialised elements, whatever \<open>v\<close> held. A negative
  \<^verbatim>\<open>int\<close> becomes an extent of more than \<open>2^63\<close> elements, which cannot be allocated.\<close>

definition realloc :: "int list \<Rightarrow> int \<Rightarrow> error + int list" where
  "realloc v n = (if n < 0 then Inl BadAlloc else Inr (replicate (nat n) 0))"

text \<open>\<^verbatim>\<open>Kokkos::atomic_increment(&v(i))\<close>.\<close>

definition atomic_increment :: "int list \<Rightarrow> int \<Rightarrow> error + int list" where
  "atomic_increment v i = ebind (at v i) (\<lambda>x. assign v i (x + 1))"

text \<open>Modelled from the spec: \<^verbatim>\<open>KokkosExt::exclusive_scan\<close>
  (ArborX\_DetailsKokkosExtStdAlgorithms.hpp, not among the sources) converts counts to
  an exclusive running sum: element \<open>i\<close> of the result is the initial value plus the sum
  of the elements before \<open>i\<close>. The sources call it in place.\<close>

definition exclusive_scan :: "int list \<Rightarrow> int \<Rightarrow> int list" where
  "exclusive_scan v init = map (\<lambda>i. init + sum_list (take i v)) [0..<length v]"

text \<open>Modelled from the spec: \<^verbatim>\<open>KokkosExt::lastElement\<close>
  (ArborX\_DetailsKokkosExtViewHelpers.hpp, not among the sources) reads the last element
  of a view, which must have one.\<close>

definition lastElement :: "'a list \<Rightarrow> error + 'a" where
  "lastElement v = (if v = [] then Inl AssertionFailed else Inr (last v))"

section \<open>countResults (ArborX\_DetailsDistributedTreeUtils.hpp)\<close>

text \<open>
  \<^verbatim>\<open>int const nnz = query_ids.extent(0);\<close> converts the extent to \<^verbatim>\<open>int\<close>, and
  \<^verbatim>\<open>n_queries + 1\<close> is an addition of \<^verbatim>\<open>int\<close>: it has no value for
  \<^verbatim>\<open>n_queries = 2147483647\<close>. The counters are incremented once per identifier, so
  they and their running sums stay below \<open>2^31\<close> whenever \<open>nnz\<close> is the extent.
\<close>

definition countResults :: "int \<Rightarrow> int list \<Rightarrow> int list \<Rightarrow> error + int list" where
  "countResults n_queries query_ids offset =
     (let nnz = int_cast (int (length query_ids)) in
      ebind (int_add n_queries 1) (\<lambda>n.
      ebind (realloc offset n) (\<lambda>offset.
      ebind (parallel_for nnz
               (\<lambda>i offset. ebind (at query_ids i) (\<lambda>q. atomic_increment offset q)) offset)
        (\<lambda>offset.
      Inr (exclusive_scan offset 0)))))"

text \<open>The number of occurrences of each of the query ids \<open>0, \<dots>, m - 1\<close> in a list of
  identifiers: what the counting loop leaves in the view.\<close>

definition counts :: "nat \<Rightarrow> int list \<Rightarrow> int list" where
  "counts m ids = map (\<lambda>j. int (count_list ids (int j))) [0..<m]"

section \<open>The communication plan and sendAcrossNetwork\<close>

text \<open>
  A view of any rank: its extents and its elements in row-major order. As in Kokkos,
  \<^verbatim>\<open>extent(r)\<close> is 1 for a dimension beyond the view's rank.
\<close>

record 'a View =
  extents :: "nat list"
  elems :: "'a list"

definition extent :: "'a View \<Rightarrow> nat \<Rightarrow> nat" where
  "extent v r = (if r < length (extents v) then extents v ! r else 1)"

definition View1 :: "'a list \<Rightarrow> 'a View" where
  "View1 xs = \<lparr>extents = [length xs], elems = xs\<rparr>"

text \<open>
  Modelled from the spec: the \<^verbatim>\<open>Distributor\<close> (ArborX\_DetailsDistributor.hpp, not among
  the sources). A plan is built collectively from every process's list of destination
  ranks, one per export item. The items a process receives arrive grouped by sending
  process, and within one sender in the order of its export buffer; \<open>arrivals\<close> lists,
  for each import position, the sender and the position in the sender's export buffer.
  The spec promises no order between senders; the model takes them by ascending rank.
\<close>

record Distributor =
  dist_rank :: nat
  dist_destinations :: "int list list"

definition arrivals :: "Distributor \<Rightarrow> (nat \<times> nat) list" where
  "arrivals distributor =
     concat (map (\<lambda>s. map (\<lambda>i. (s, i))
                    (filter (\<lambda>i. dist_destinations distributor ! s ! i = int (dist_rank distributor))
                       [0..<length (dist_destinations distributor ! s)]))
               [0..<length (dist_destinations distributor)])"

definition getTotalSendLength :: "Distributor \<Rightarrow> nat" where
  "getTotalSendLength distributor = length (dist_destinations distributor ! dist_rank distributor)"

definition getTotalReceiveLength :: "Distributor \<Rightarrow> nat" where
  "getTotalReceiveLength distributor = length (arrivals distributor)"

text \<open>\<^verbatim>\<open>createFromSends(space, destination_ranks)\<close>, called by every process of the
  communicator; a destination that is no rank of the communicator fails the call.\<close>

definition createFromSends :: "nat \<Rightarrow> int list list \<Rightarrow> error + Distributor" where
  "createFromSends comm_rank group_destinations =
     (if list_all (list_all (\<lambda>d. 0 \<le> d \<and> d < int (length group_destinations))) group_destinations
      then Inr \<lparr>dist_rank = comm_rank, dist_destinations = group_destinations\<rparr>
      else Inl InvalidRank)"

text \<open>\<^verbatim>\<open>createFromSends(space, batched_destination_ranks, batch_offsets)\<close>: the items
  of batch \<open>q\<close>, the positions \<open>[offset(q), offset(q+1))\<close>, all go to rank \<open>ranks(q)\<close>.\<close>

definition batched_destinations :: "int list \<Rightarrow> int list \<Rightarrow> error + int list" where
  "batched_destinations ranks offset =
     (if length offset = length ranks + 1
      then Inr (concat (map (\<lambda>q. replicate (nat (offset ! Suc q - offset ! q)) (ranks ! q))
                          [0..<length ranks]))
      else Inl AssertionFailed)"

fun collect :: "(error + 'a) list \<Rightarrow> error + 'a list" where
  "collect [] = Inr []"
| "collect (m # ms) = ebind m (\<lambda>x. ebind (collect ms) (\<lambda>xs. Inr (x # xs)))"

definition createFromSends_batched ::
  "nat \<Rightarrow> (int list \<times> int list) list \<Rightarrow> error + Distributor" where
  "createFromSends_batched comm_rank group_batches =
     ebind (collect (map (\<lambda>(ranks, offset). batched_destinations ranks offset) group_batches))
       (createFromSends comm_rank)"

text \<open>
  \<^verbatim>\<open>doPostsAndWaits\<close>: an item is a packet of \<open>num_packets\<close> consecutive elements. The
  exchange is collective: \<open>group_exports\<close> holds what every process of the communicator
  passes to the matching call (the caller's own buffer at its own rank). It cannot
  complete when a peer failed before the call or passes a buffer that does not hold its
  planned number of items.
\<close>

definition packet :: "'a View \<Rightarrow> nat \<Rightarrow> nat \<Rightarrow> 'a list" where
  "packet v num_packets i = take num_packets (drop (i * num_packets) (elems v))"

definition doPostsAndWaits ::
  "Distributor \<Rightarrow> (error + 'a View) list \<Rightarrow> nat \<Rightarrow> error + 'a list" where
  "doPostsAndWaits distributor group_exports num_packets =
     (case collect group_exports of
        Inl e \<Rightarrow> Inl PeerFailed
      | Inr views \<Rightarrow>
          if length views = length (dist_destinations distributor)
             \<and> list_all (\<lambda>s. length (elems (views ! s))
                                = length (dist_destinations distributor ! s) * num_packets)
                  [0..<length views]
          then Inr (concat (map (\<lambda>(s, i). packet (views ! s) num_packets i) (arrivals distributor)))
          else Inl PeerFailed)"

text \<open>
  Modelled from the spec: \<^verbatim>\<open>ARBORX_ASSERT\<close> (ArborX\_Exception.hpp, not among the
  sources) is a fatal assertion: when its condition is false the call ends there with
  \<open>AssertionFailed\<close> and nothing after it runs.

  \<^verbatim>\<open>sendAcrossNetwork\<close>: the received items replace the whole contents of \<open>imports\<close>
  (the staging copies in layout-right order and in host memory do not change them).
\<close>

definition sendAcrossNetwork ::
  "Distributor \<Rightarrow> (error + 'a View) list \<Rightarrow> 'a View \<Rightarrow> 'a View \<Rightarrow> error + 'a View" where
  "sendAcrossNetwork distributor peers exports imports =
     (if \<not> (extent exports 0 = getTotalSendLength distributor
             \<and> extent imports 0 = getTotalReceiveLength distributor
             \<and> extent exports 1 = extent imports 1
             \<and> extent exports 2 = extent imports 2
             \<and> extent exports 3 = extent imports 3
             \<and> extent exports 4 = extent imports 4
             \<and> extent exports 5 = extent imports 5
             \<and> extent exports 6 = extent imports 6
             \<and> extent exports 7 = extent imports 7)
      then Inl AssertionFailed
      else
        let num_packets = extent exports 1 * extent exports 2 * extent exports 3
              * extent exports 4 * extent exports 5 * extent exports 6 * extent exports 7
        in ebind (doPostsAndWaits distributor (peers[dist_rank distributor := Inr exports]) num_packets)
             (\<lambda>import_buffer. Inr (imports\<lparr>elems := import_buffer\<rparr>)))"

section \<open>forwardQueries (ArborX\_DetailsDistributedTreeUtils.hpp)\<close>

text \<open>A view allocated with \<^verbatim>\<open>WithoutInitializing\<close>: \<open>n\<close> cells whose contents are whatever
  the memory held, given here by \<open>memory\<close>.\<close>

definition uninitialized :: "(nat \<Rightarrow> 'a) \<Rightarrow> int \<Rightarrow> error + 'a list" where
  "uninitialized memory n = (if n < 0 then Inl BadAlloc else Inr (map memory [0..<nat n]))"

text \<open>\<^verbatim>\<open>Kokkos::deep_copy(space, v, x)\<close> with a value \<open>x\<close>: every cell becomes \<open>x\<close>.\<close>

definition deep_copy_value :: "'a list \<Rightarrow> 'a \<Rightarrow> 'a list" where
  "deep_copy_value v x = map (\<lambda>_. x) v"

text \<open>
  The fill loops of \<^verbatim>\<open>forwardQueries\<close> and \<^verbatim>\<open>communicateResultsBack\<close>:
  \<^verbatim>\<open>parallel_for(0, n, q -> for (int i = offset(q); i < offset(q + 1); ++i) buffer(i) = value(q))\<close>,
  where \<open>value(q)\<close> is \<^verbatim>\<open>queries(q)\<close>, \<^verbatim>\<open>q\<close> or \<^verbatim>\<open>ids(q)\<close>.
\<close>

definition fill_buffer ::
  "int \<Rightarrow> int list \<Rightarrow> (int \<Rightarrow> error + 'a) \<Rightarrow> 'a list \<Rightarrow> error + 'a list" where
  "fill_buffer n offset val buffer =
     parallel_for n (\<lambda>q buffer.
       ebind (at offset q) (\<lambda>lo.
       ebind (at offset (q + 1)) (\<lambda>hi.
       for_range lo hi (\<lambda>i buffer. ebind (val q) (\<lambda>x. assign buffer i x)) buffer))) buffer"

text \<open>A buffer whose cells \<open>[lo, hi)\<close> have been set to \<open>x\<close>: what one query's inner
  loop leaves.\<close>

definition fill_cells :: "'a list \<Rightarrow> int \<Rightarrow> int \<Rightarrow> 'a \<Rightarrow> 'a list" where
  "fill_cells b lo hi x = map (\<lambda>i. if lo \<le> int i \<and> int i < hi then x else b ! i) [0..<length b]"

text \<open>The arguments one process passes to \<^verbatim>\<open>forwardQueries\<close>, and what it gets back.\<close>

record 'q forward_args =
  fa_queries :: "'q list"
  fa_indices :: "int list"
  fa_offset :: "int list"

record 'q forwarded =
  fwd_queries :: "'q list"
  fwd_ids :: "int list"
  fwd_ranks :: "int list"

text \<open>The three export buffers, as the process of rank \<open>comm_rank\<close> builds them from its
  arguments.\<close>

definition forward_export_ranks :: "(nat \<Rightarrow> int) \<Rightarrow> 'q forward_args \<Rightarrow> nat \<Rightarrow> error + int list" where
  "forward_export_ranks memory args comm_rank =
     ebind (lastElement (fa_offset args)) (\<lambda>n_exports.
     ebind (uninitialized memory n_exports) (\<lambda>export_ranks.
     Inr (deep_copy_value export_ranks (int comm_rank))))"

definition forward_exports :: "(nat \<Rightarrow> 'q) \<Rightarrow> 'q forward_args \<Rightarrow> error + 'q list" where
  "forward_exports memory args =
     (let queries = fa_queries args; offset = fa_offset args;
          n_queries = int (length queries) in
      ebind (lastElement offset) (\<lambda>n_exports.
      ebind (uninitialized memory n_exports) (\<lambda>exports.
      fill_buffer n_queries offset (\<lambda>q. at queries q) exports)))"

definition forward_export_ids :: "(nat \<Rightarrow> int) \<Rightarrow> 'q forward_args \<Rightarrow> error + int list" where
  "forward_export_ids memory args =
     (let queries = fa_queries args; offset = fa_offset args;
          n_queries = int (length queries) in
      ebind (lastElement offset) (\<lambda>n_exports.
      ebind (uninitialized memory n_exports) (\<lambda>export_ids.
      fill_buffer n_queries offset (\<lambda>q. Inr q) export_ids)))"

text \<open>What every process of the communicator passes to a collective call.\<close>

definition group_views :: "nat \<Rightarrow> (nat \<Rightarrow> error + 'a list) \<Rightarrow> (error + 'a View) list" where
  "group_views n_procs buffer_of =
     map (\<lambda>s. ebind (buffer_of s) (\<lambda>buffer. Inr (View1 buffer))) [0..<n_procs]"

text \<open>
  \<^verbatim>\<open>forwardQueries\<close> as the process of rank \<open>comm_rank\<close> runs it, in a communicator
  whose processes pass the arguments \<open>comm\<close> (one entry per rank). \<open>int_memory s\<close> and
  \<open>query_memory s\<close> are the prior contents of the memory in which process \<open>s\<close> allocates
  its uninitialised views.
\<close>

definition forwardQueries ::
  "'q forward_args list \<Rightarrow> nat \<Rightarrow> (nat \<Rightarrow> nat \<Rightarrow> int) \<Rightarrow> (nat \<Rightarrow> nat \<Rightarrow> 'q) \<Rightarrow> error + 'q forwarded" where
  "forwardQueries comm comm_rank int_memory query_memory =
     (let args = comm ! comm_rank; indices = fa_indices args; offset = fa_offset args in
      ebind (lastElement offset) (\<lambda>n_exports.
      ebind (createFromSends comm_rank (map fa_indices comm)) (\<lambda>distributor.
      let n_imports = int (getTotalReceiveLength distributor) in
      ebind (forward_export_ranks (int_memory comm_rank) args comm_rank) (\<lambda>export_ranks.
      ebind (uninitialized (int_memory comm_rank) n_imports) (\<lambda>import_ranks.
      ebind (sendAcrossNetwork distributor
               (group_views (length comm) (\<lambda>s. forward_export_ranks (int_memory s) (comm ! s) s))
               (View1 export_ranks) (View1 import_ranks)) (\<lambda>import_ranks.
      let fwd_ranks = elems import_ranks in
      ebind (forward_exports (query_memory comm_rank) args) (\<lambda>exports.
      ebind (uninitialized (query_memory comm_rank) n_imports) (\<lambda>imports.
      ebind (sendAcrossNetwork distributor
               (group_views (length comm) (\<lambda>s. forward_exports (query_memory s) (comm ! s)))
               (View1 exports) (View1 imports)) (\<lambda>imports.
      let fwd_queries = elems imports in
      ebind (forward_export_ids (int_memory comm_rank) args) (\<lambda>export_ids.
      ebind (uninitialized (int_memory comm_rank) n_imports) (\<lambda>import_ids.
      ebind (sendAcrossNetwork distributor
               (group_views (length comm) (\<lambda>s. forward_export_ids (int_memory s) (comm ! s)))
               (View1 export_ids) (View1 import_ids)) (\<lambda>import_ids.
      let fwd_ids = elems import_ids in
      Inr \<lparr>fwd_queries = fwd_queries, fwd_ids = fwd_ids, fwd_ranks = fwd_ranks\<rparr>))))))))))))"

text \<open>Well-formed CSR offsets over \<open>n\<close> rows, and well-formed arguments of
  \<^verbatim>\<open>forwardQueries\<close> in a communicator of \<open>n_procs\<close> processes.\<close>

definition csr :: "int list \<Rightarrow> nat \<Rightarrow> bool" where
  "csr offset n \<longleftrightarrow> length offset = n + 1 \<and> offset ! 0 = 0 \<and> sorted offset"

definition forward_ok :: "nat \<Rightarrow> 'q forward_args \<Rightarrow> bool" where
  "forward_ok n_procs args \<longleftrightarrow>
     csr (fa_offset args) (length (fa_queries args))
     \<and> last (fa_offset args) = int (length (fa_indices args))
     \<and> list_all (\<lambda>d. 0 \<le> d \<and> d < int n_procs) (fa_indices args)"

section \<open>communicateResultsBack (ArborX\_DetailsDistributedTreeUtils.hpp)\<close>

text \<open>
  The bindings one process passes to \<^verbatim>\<open>communicateResultsBack\<close>. \<open>ba_distances\<close> is the
  optional \<^verbatim>\<open>distances_ptr\<close>: \<open>None\<close> is the null pointer. The call rebinds \<open>out\<close>,
  \<open>ranks\<close>, \<open>ids\<close> and the pointed-to distances, so its result is the same record with
  these fields replaced.
\<close>

record ('o, 'd) back_args =
  ba_out :: "'o list"
  ba_offset :: "int list"
  ba_ranks :: "int list"
  ba_ids :: "int list"
  ba_distances :: "'d list option"

text \<open>The export buffers of ranks and of ids, as the process of rank \<open>comm_rank\<close> builds
  them from its arguments.\<close>

definition back_export_ranks ::
  "(nat \<Rightarrow> int) \<Rightarrow> ('o, 'd) back_args \<Rightarrow> nat \<Rightarrow> error + int list" where
  "back_export_ranks memory args comm_rank =
     ebind (lastElement (ba_offset args)) (\<lambda>n_exports.
     ebind (uninitialized memory n_exports) (\<lambda>export_ranks.
     Inr (deep_copy_value export_ranks (int comm_rank))))"

definition back_export_ids :: "(nat \<Rightarrow> int) \<Rightarrow> ('o, 'd) back_args \<Rightarrow> error + int list" where
  "back_export_ids memory args =
     (let offset = ba_offset args; ids = ba_ids args;
          n_fwd_queries = int (length offset) - 1 in
      ebind (lastElement offset) (\<lambda>n_exports.
      ebind (uninitialized memory n_exports) (\<lambda>export_ids.
      fill_buffer n_fwd_queries offset (\<lambda>q. at ids q) export_ids)))"

text \<open>What a process passes to the exchange of distances: its distances, when it has
  any; a process called with a null pointer takes no part in that exchange.\<close>

definition back_export_distances :: "('o, 'd) back_args \<Rightarrow> error + 'd list" where
  "back_export_distances args =
     (case ba_distances args of None \<Rightarrow> Inl PeerFailed | Some distances \<Rightarrow> Inr distances)"

text \<open>
  \<^verbatim>\<open>communicateResultsBack\<close> as the process of rank \<open>comm_rank\<close> runs it, in a
  communicator whose processes pass the arguments \<open>comm\<close>. \<open>int_memory s\<close>,
  \<open>out_memory s\<close> and \<open>distance_memory s\<close> are the prior contents of the memory in which
  process \<open>s\<close> allocates its uninitialised views.
\<close>

definition communicateResultsBack ::
  "('o, 'd) back_args list \<Rightarrow> nat \<Rightarrow> (nat \<Rightarrow> nat \<Rightarrow> int) \<Rightarrow> (nat \<Rightarrow> nat \<Rightarrow> 'o)
     \<Rightarrow> (nat \<Rightarrow> nat \<Rightarrow> 'd) \<Rightarrow> error + ('o, 'd) back_args" where
  "communicateResultsBack comm comm_rank int_memory out_memory distance_memory =
     (let args = comm ! comm_rank; out = ba_out args; offset = ba_offset args;
          distances_ptr = ba_distances args in
      ebind (lastElement offset) (\<lambda>n_exports.
      ebind (createFromSends_batched comm_rank (map (\<lambda>a. (ba_ranks a, ba_offset a)) comm))
        (\<lambda>distributor.
      let n_imports = int (getTotalReceiveLength distributor) in
      ebind (back_export_ranks (int_memory comm_rank) args comm_rank) (\<lambda>export_ranks.
      ebind (uninitialized (int_memory comm_rank) n_imports) (\<lambda>import_ranks.
      ebind (sendAcrossNetwork distributor
               (group_views (length comm) (\<lambda>s. back_export_ranks (int_memory s) (comm ! s) s))
               (View1 export_ranks) (View1 import_ranks)) (\<lambda>import_ranks.
      let ranks = elems import_ranks in
      ebind (back_export_ids (int_memory comm_rank) args) (\<lambda>export_ids.
      ebind (uninitialized (int_memory comm_rank) n_imports) (\<lambda>import_ids.
      ebind (sendAcrossNetwork distributor
               (group_views (length comm) (\<lambda>s. back_export_ids (int_memory s) (comm ! s)))
               (View1 export_ids) (View1 import_ids)) (\<lambda>import_ids.
      let ids = elems import_ids;
          export_out = out in
      ebind (uninitialized (out_memory comm_rank) n_imports) (\<lambda>import_out.
      ebind (sendAcrossNetwork distributor
               (group_views (length comm) (\<lambda>s. Inr (ba_out (comm ! s))))
               (View1 export_out) (View1 import_out)) (\<lambda>import_out.
      let out = elems import_out in
      ebind (case distances_ptr of
               None \<Rightarrow> Inr None
             | Some distances \<Rightarrow>
                 let export_distances = distances in
                 ebind (uninitialized (distance_memory comm_rank) n_imports) (\<lambda>import_distances.
                 ebind (sendAcrossNetwork distributor
                          (group_views (length comm) (\<lambda>s. back_export_distances (comm ! s)))
                          (View1 export_distances) (View1 import_distances)) (\<lambda>import_distances.
                 Inr (Some (elems import_distances))))) (\<lambda>distances.
      Inr (args\<lparr>ba_out := out, ba_ranks := ranks, ba_ids := ids,
                ba_distances := distances\<rparr>)))))))))))))"

text \<open>Well-formed arguments of \<^verbatim>\<open>communicateResultsBack\<close> in a communicator of
  \<open>n_procs\<close> processes: one rank and one id per forwarded query, CSR offsets over the
  forwarded queries that end at the number of results, and ranks of the communicator.\<close>

definition back_ok :: "nat \<Rightarrow> ('o, 'd) back_args \<Rightarrow> bool" where
  "back_ok n_procs args \<longleftrightarrow>
     csr (ba_offset args) (length (ba_ranks args))
     \<and> length (ba_ids args) = length (ba_ranks args)
     \<and> last (ba_offset args) = int (length (ba_out args))
     \<and> list_all (\<lambda>d. 0 \<le> d \<and> d < int n_procs) (ba_ranks args)"

text \<open>Distances, when given, are one per result.\<close>

definition distances_ok :: "('o, 'd) back_args \<Rightarrow> bool" where
  "distances_ok args \<longleftrightarrow>
     (case ba_distances args of None \<Rightarrow> True
      | Some distances \<Rightarrow> length distances = length (ba_out args))"

text \<open>The per-item destinations that the batched plan stands for, and the bindings a
  process holds after the call when the plan \<open>d\<close> delivered to it: each received item
  comes from the sender and export position that \<open>arrivals d\<close> gives.\<close>

definition batch_dests :: "int list \<Rightarrow> int list \<Rightarrow> int list" where
  "batch_dests ranks offset =
     concat (map (\<lambda>q. replicate (nat (offset ! Suc q - offset ! q)) (ranks ! q)) [0..<length ranks])"

definition received ::
  "('o, 'd) back_args list \<Rightarrow> nat \<Rightarrow> (nat \<Rightarrow> int list) \<Rightarrow> Distributor \<Rightarrow> 'd list option
     \<Rightarrow> ('o, 'd) back_args" where
  "received comm comm_rank eids d distances =
     (comm ! comm_rank)
       \<lparr>ba_out := map (\<lambda>(s, i). ba_out (comm ! s) ! i) (arrivals d),
        ba_ranks := map (\<lambda>(s, i). replicate (length (ba_out (comm ! s))) (int s) ! i) (arrivals d),
        ba_ids := map (\<lambda>(s, i). eids s ! i) (arrivals d),
        ba_distances := distances\<rparr>"

section \<open>sortResults (ArborX\_DetailsDistributedTreeUtils.hpp)\<close>

text \<open>
  \<^verbatim>\<open>sortResults\<close> works on views through their handles, and the helpers it calls
  write into the views they are given, so the views live in a store: the list of the
  contents of the allocated views, a handle being a position in it. All views of the
  store have one element type here.
\<close>

definition fetch :: "'v list list \<Rightarrow> nat \<Rightarrow> error + 'v list" where
  "fetch store h = (if h < length store then Inr (store ! h) else Inl OutOfBounds)"

text \<open>A view constructor: the new view gets a fresh handle.\<close>

definition view_alloc :: "'v list list \<Rightarrow> 'v list \<Rightarrow> 'v list list \<times> nat" where
  "view_alloc store contents = (store @ [contents], length store)"

text \<open>\<^verbatim>\<open>Kokkos::deep_copy(space, dst, src)\<close> between two views of equal extent.\<close>

definition deep_copy :: "'v list list \<Rightarrow> nat \<Rightarrow> nat \<Rightarrow> error + 'v list list" where
  "deep_copy store dst src =
     ebind (fetch store dst) (\<lambda>d.
     ebind (fetch store src) (\<lambda>s.
     if length d = length s then Inr (store[dst := s]) else Inl AssertionFailed))"

text \<open>
  Modelled from the spec: \<^verbatim>\<open>ArborX::Details::sortObjects\<close> (ArborX\_DetailsSortUtils.hpp,
  not among the sources) sorts the view it is given, ascending and in place, and returns
  the permutation that sorts it: element \<open>i\<close> of the sorted view is element
  \<open>permutation(i)\<close> of the view as it was. Equal keys are taken in their original order
  here; the spec leaves their order open.
\<close>

definition sortObjects :: "'v::linorder list list \<Rightarrow> nat \<Rightarrow> error + ('v list list \<times> nat list)" where
  "sortObjects store view =
     ebind (fetch store view) (\<lambda>v.
     let permutation = sort_key (\<lambda>i. v ! i) [0..<length v] in
     Inr (store[view := map (\<lambda>i. v ! i) permutation], permutation))"

text \<open>
  Modelled from the spec: \<^verbatim>\<open>ArborX::Details::applyPermutation\<close>
  (ArborX\_DetailsSortUtils.hpp, not among the sources) applies the permutation to the
  view in place: element \<open>i\<close> becomes the former element \<open>permutation(i)\<close>.
\<close>

definition applyPermutation :: "nat list \<Rightarrow> nat \<Rightarrow> 'v list list \<Rightarrow> error + 'v list list" where
  "applyPermutation permutation view store =
     ebind (fetch store view) (\<lambda>scratch_view.
     ebind (collect (map (\<lambda>i. ebind (at permutation (int i)) (\<lambda>p. at scratch_view (int p)))
                       [0..<length scratch_view])) (\<lambda>permuted.
     Inr (store[view := permuted])))"

fun apply_all :: "('s \<Rightarrow> error + 's) list \<Rightarrow> 's \<Rightarrow> error + 's" where
  "apply_all [] s = Inr s"
| "apply_all (f # fs) s = ebind (f s) (apply_all fs)"

text \<open>
  \<^verbatim>\<open>sortResults(space, keys, other_views...)\<close>. The working copy \<open>keys_clone\<close> is a
  local of the function: it is gone from the store when the function returns.
\<close>

definition sortResults ::
  "'v::linorder list list \<Rightarrow> nat \<Rightarrow> nat list \<Rightarrow> (nat \<Rightarrow> 'v) \<Rightarrow> error + 'v list list" where
  "sortResults store keys other_views memory =
     ebind (fetch store keys) (\<lambda>keys_contents.
     let n = length keys_contents in
     if n = 0 then Inr store
     else
       ebind (uninitialized memory (int (length keys_contents))) (\<lambda>fresh.
       let (store1, keys_clone) = view_alloc store fresh in
       ebind (deep_copy store1 keys_clone keys) (\<lambda>store2.
       ebind (sortObjects store2 keys_clone) (\<lambda>(store3, permutation).
       ebind (apply_all (map (applyPermutation permutation) other_views) store3) (\<lambda>store4.
       Inr (take (length store) store4))))))"

section \<open>filterResults (ArborX\_DetailsDistributedTreeUtils.hpp)\<close>

text \<open>
  Modelled from the spec: \<^verbatim>\<open>Details::PriorityQueue\<close> over an
  \<^verbatim>\<open>UnmanagedStaticVector\<close> (ArborX\_DetailsPriorityQueue.hpp and
  ArborX\_DetailsContainers.hpp, not among the sources): a priority queue of fixed
  capacity, ordered by a comparison \<open>compare\<close> in the manner of the C++ standard library:
  \<open>compare a b\<close> says that \<open>a\<close> has lower priority than \<open>b\<close>, and \<open>top\<close> is an element
  that no element of the queue has higher priority than. Among elements of equal
  priority the model takes the one inserted first; the spec leaves that choice open.
  The model keeps the elements in insertion order instead of heap order.
\<close>

record 'a PriorityQueue =
  pq_elements :: "'a list"
  pq_capacity :: nat

definition pq_new :: "nat \<Rightarrow> 'a PriorityQueue" where
  "pq_new capacity = \<lparr>pq_elements = [], pq_capacity = capacity\<rparr>"

definition pq_empty :: "'a PriorityQueue \<Rightarrow> bool" where
  "pq_empty queue \<longleftrightarrow> pq_elements queue = []"

definition pq_emplace :: "'a PriorityQueue \<Rightarrow> 'a \<Rightarrow> error + 'a PriorityQueue" where
  "pq_emplace queue x =
     (if length (pq_elements queue) < pq_capacity queue
      then Inr (queue\<lparr>pq_elements := pq_elements queue @ [x]\<rparr>)
      else Inl AssertionFailed)"

fun highest :: "('a \<Rightarrow> 'a \<Rightarrow> bool) \<Rightarrow> 'a \<Rightarrow> 'a list \<Rightarrow> 'a" where
  "highest compare best [] = best"
| "highest compare best (y # ys) = highest compare (if compare best y then y else best) ys"

definition pq_top :: "('a \<Rightarrow> 'a \<Rightarrow> bool) \<Rightarrow> 'a PriorityQueue \<Rightarrow> error + 'a" where
  "pq_top compare queue =
     (case pq_elements queue of [] \<Rightarrow> Inl AssertionFailed | x # xs \<Rightarrow> Inr (highest compare x xs))"

definition pq_pop :: "('a \<Rightarrow> 'a \<Rightarrow> bool) \<Rightarrow> 'a PriorityQueue \<Rightarrow> error + 'a PriorityQueue" where
  "pq_pop compare queue =
     (case pq_elements queue of
        [] \<Rightarrow> Inl AssertionFailed
      | x # xs \<Rightarrow> Inr (queue\<lparr>pq_elements := remove1 (highest compare x xs) (x # xs)\<rparr>))"

text \<open>\<^verbatim>\<open>PairIndexDistance\<close> is \<^verbatim>\<open>Kokkos::pair<Kokkos::Array<int, 2>, float>\<close>: the index and
  the rank, and the distance. Distances are values of a linear order: the floating-point
  numbers without NaN, as far as the comparison \<^verbatim>\<open>lhs.second > rhs.second\<close> goes.\<close>

type_synonym 'd PairIndexDistance = "(int \<times> int) \<times> 'd"

text \<open>\<^verbatim>\<open>CompareDistance\<close>: reverse order (larger distance means lower priority).\<close>

definition CompareDistance :: "('d::linorder) PairIndexDistance \<Rightarrow> 'd PairIndexDistance \<Rightarrow> bool" where
  "CompareDistance lhs rhs \<longleftrightarrow> snd lhs > snd rhs"

text \<open>A view constructed with a label and an extent only: \<open>n\<close> value-initialised cells.\<close>

definition zero_initialized :: "int \<Rightarrow> error + int list" where
  "zero_initialized n = (if n < 0 then Inl BadAlloc else Inr (replicate (nat n) 0))"

text \<open>\<^verbatim>\<open>Kokkos::subview(buffer, Kokkos::make_pair(lo, hi))\<close>, as far as the queue uses it:
  the number of cells of the slice, which must lie inside the buffer.\<close>

definition subview_size :: "int \<Rightarrow> int \<Rightarrow> int \<Rightarrow> error + nat" where
  "subview_size n lo hi = (if 0 \<le> lo \<and> lo \<le> hi \<and> hi \<le> n then Inr (nat (hi - lo)) else Inl OutOfBounds)"

lemma ebind_cong [fundef_cong]:
  "m = m' \<Longrightarrow> (\<And>x. m' = Inr x \<Longrightarrow> f x = f' x) \<Longrightarrow> ebind m f = ebind m' f'"
  by (cases m') (simp_all add: ebind_def)

lemma highest_member: "highest compare x xs \<in> set (x # xs)"
  by (induction xs arbitrary: x) auto

lemma pq_pop_shorter:
  assumes "pq_pop compare queue = Inr queue'"
  shows "length (pq_elements queue') < length (pq_elements queue)"
proof (cases "pq_elements queue")
  case Nil
  with assms show ?thesis
    by (simp add: pq_pop_def)
next
  case (Cons x xs)
  with assms have "pq_elements queue' = remove1 (highest compare x xs) (x # xs)"
    by (auto simp: pq_pop_def)
  then have "length (pq_elements queue') = length (x # xs) - 1"
    using highest_member [of compare x xs] by (simp only: length_remove1 if_True)
  with Cons show ?thesis
    by simp
qed

text \<open>
  The loop \<^verbatim>\<open>while (!queue.empty() && count < getK(queries(q)))\<close> of the query \<open>q\<close>,
  with \<open>k\<close> for \<^verbatim>\<open>getK(queries(q))\<close> and \<open>count'\<close> for \<^verbatim>\<open>count\<close>; the state is the queue,
  the counter and the two output views.
\<close>

function pop_loop ::
  "int list \<Rightarrow> int \<Rightarrow> int \<Rightarrow> ('d::linorder) PairIndexDistance PriorityQueue \<Rightarrow> int
     \<Rightarrow> int list \<times> int list \<Rightarrow> error + (int list \<times> int list)" where
  "pop_loop new_offset q k queue count' (new_indices, new_ranks) =
     (if \<not> pq_empty queue \<and> count' < k then
        ebind (at new_offset q) (\<lambda>base.
        ebind (pq_top CompareDistance queue) (\<lambda>t.
        ebind (assign new_indices (base + count') (fst (fst t))) (\<lambda>new_indices.
        ebind (assign new_ranks (base + count') (snd (fst t))) (\<lambda>new_ranks.
        ebind (pq_pop CompareDistance queue) (\<lambda>queue.
        pop_loop new_offset q k queue (count' + 1) (new_indices, new_ranks))))))
      else Inr (new_indices, new_ranks))"
  by pat_completeness auto
termination
  by (relation "measure (\<lambda>(new_offset, q, k, queue, count', views). length (pq_elements queue))")
    (auto dest: pq_pop_shorter)

text \<open>The body of the loop \<^verbatim>\<open>truncate_results\<close> for the query \<open>q\<close>.\<close>

definition truncate_results ::
  "('q \<Rightarrow> int) \<Rightarrow> 'q list \<Rightarrow> ('d::linorder) list \<Rightarrow> int list \<Rightarrow> int list \<Rightarrow> int list
     \<Rightarrow> int list \<Rightarrow> int \<Rightarrow> int \<Rightarrow> int list \<times> int list \<Rightarrow> error + (int list \<times> int list)" where
  "truncate_results getK queries distances indices offset ranks new_offset n_results q views =
     ebind (at offset (q + 1)) (\<lambda>hi.
     ebind (at offset q) (\<lambda>lo.
     if hi > lo then
       ebind (subview_size n_results lo hi) (\<lambda>local_buffer_size.
       let queue = pq_new local_buffer_size in
       ebind (for_range lo hi (\<lambda>i queue.
                ebind (at indices i) (\<lambda>index.
                ebind (at ranks i) (\<lambda>rank.
                ebind (at distances i) (\<lambda>distance.
                pq_emplace queue ((index, rank), distance))))) queue) (\<lambda>queue.
       ebind (at queries q) (\<lambda>query.
       pop_loop new_offset q (getK query) queue 0 views)))
     else Inr views))"

text \<open>
  \<^verbatim>\<open>filterResults\<close>; \<open>getK\<close> is the function of that name, which is not among the
  sources and is a parameter here. The result is the new binding of \<open>indices\<close>, \<open>offset\<close>
  and \<open>ranks\<close>.
\<close>

definition filterResults ::
  "('q \<Rightarrow> int) \<Rightarrow> 'q list \<Rightarrow> ('d::linorder) list \<Rightarrow> int list \<Rightarrow> int list \<Rightarrow> int list
     \<Rightarrow> error + (int list \<times> int list \<times> int list)" where
  "filterResults getK queries distances indices offset ranks =
     (let n_queries = int (length queries) in
      ebind (zero_initialized (n_queries + 1)) (\<lambda>new_offset.
      ebind (parallel_for n_queries (\<lambda>q new_offset.
               ebind (at offset (q + 1)) (\<lambda>hi.
               ebind (at offset q) (\<lambda>lo.
               ebind (at queries q) (\<lambda>query.
               assign new_offset q (min (hi - lo) (getK query)))))) new_offset) (\<lambda>new_offset.
      let new_offset = exclusive_scan new_offset 0 in
      ebind (lastElement new_offset) (\<lambda>n_truncated_results.
      ebind (zero_initialized n_truncated_results) (\<lambda>new_indices.
      ebind (zero_initialized n_truncated_results) (\<lambda>new_ranks.
      ebind (lastElement offset) (\<lambda>n_results.
      if n_results < 0 then Inl BadAlloc
      else
        ebind (parallel_for n_queries
                 (truncate_results getK queries distances indices offset ranks new_offset n_results)
                 (new_indices, new_ranks)) (\<lambda>(new_indices, new_ranks).
        Inr (new_indices, new_offset, new_ranks)))))))))"

text \<open>The candidates of the query \<open>q\<close>, in the order of the input views, and the elements
  that the loop of a query pops from a queue holding \<open>xs\<close>, at most \<open>k\<close> of them.\<close>

definition candidates ::
  "'d list \<Rightarrow> int list \<Rightarrow> int list \<Rightarrow> int list \<Rightarrow> nat \<Rightarrow> 'd PairIndexDistance list" where
  "candidates distances indices offset ranks q =
     map (\<lambda>i. ((indices ! i, ranks ! i), distances ! i)) [nat (offset ! q)..<nat (offset ! Suc q)]"

fun popped :: "nat \<Rightarrow> ('d::linorder) PairIndexDistance list \<Rightarrow> 'd PairIndexDistance list" where
  "popped 0 xs = []"
| "popped (Suc k) [] = []"
| "popped (Suc k) (x # xs) =
     highest CompareDistance x xs # popped k (remove1 (highest CompareDistance x xs) (x # xs))"

text \<open>
  For the statement of what \<^verbatim>\<open>filterResults\<close> returns: the number of results a query keeps,
  the inputs it is specified for (CSR offsets over the queries that stay inside the three
  input views, and no negative requested count), the new offsets, the elements a query
  pops, and a view with a run of cells overwritten.
\<close>

definition kept :: "('q \<Rightarrow> int) \<Rightarrow> 'q list \<Rightarrow> int list \<Rightarrow> nat \<Rightarrow> int" where
  "kept getK queries offset q = min (offset ! Suc q - offset ! q) (getK (queries ! q))"

definition filter_ok ::
  "('q \<Rightarrow> int) \<Rightarrow> 'q list \<Rightarrow> 'd list \<Rightarrow> int list \<Rightarrow> int list \<Rightarrow> int list \<Rightarrow> bool" where
  "filter_ok getK queries distances indices offset ranks \<longleftrightarrow>
     csr offset (length queries)
     \<and> last offset \<le> int (length indices)
     \<and> last offset \<le> int (length ranks)
     \<and> last offset \<le> int (length distances)
     \<and> list_all (\<lambda>query. 0 \<le> getK query) queries"

definition new_offsets :: "('q \<Rightarrow> int) \<Rightarrow> 'q list \<Rightarrow> int list \<Rightarrow> int list" where
  "new_offsets getK queries offset =
     exclusive_scan (map (kept getK queries offset) [0..<length queries] @ [0]) 0"

definition nearest ::
  "('q \<Rightarrow> int) \<Rightarrow> 'q list \<Rightarrow> ('d::linorder) list \<Rightarrow> int list \<Rightarrow> int list \<Rightarrow> int list \<Rightarrow> nat
     \<Rightarrow> 'd PairIndexDistance list" where
  "nearest getK queries distances indices offset ranks q =
     popped (nat (getK (queries ! q))) (candidates distances indices offset ranks q)"

definition overwrite :: "'a list \<Rightarrow> nat \<Rightarrow> 'a list \<Rightarrow> 'a list" where
  "overwrite v pos ys =
     map (\<lambda>i. if pos \<le> i \<and> i < pos + length ys then ys ! (i - pos) else v ! i) [0..<length v]"

section \<open>PermutedData (ArborX\_DetailsPermutedData.hpp)\<close>

record 'a PermutedData =
  pd_data :: "'a list"
  pd_permute :: "int list"

text \<open>
  The two views are the memory an access works on. An access is a run on it: it takes
  the object and returns its result together with the object as the run leaves it.
  \<^verbatim>\<open>v(i)\<close> on a member view \<open>v\<close> is a read of that memory; a failing step ends the
  run.
\<close>

type_synonym ('s, 'r) run = "'s \<Rightarrow> (error + 'r) \<times> 's"

definition view_read :: "('s \<Rightarrow> 'a list) \<Rightarrow> int \<Rightarrow> ('s, 'a) run" where
  "view_read member i s = (at (member s) i, s)"

definition run_bind :: "('s, 'a) run \<Rightarrow> ('a \<Rightarrow> ('s, 'b) run) \<Rightarrow> ('s, 'b) run" where
  "run_bind m f s = (case m s of (Inl e, s') \<Rightarrow> (Inl e, s') | (Inr x, s') \<Rightarrow> f x s')"

definition run_return :: "'r \<Rightarrow> ('s, 'r) run" where
  "run_return x s = (Inr x, s)"

text \<open>\<^verbatim>\<open>operator()(int i)\<close>: \<^verbatim>\<open>return _data(_permute(i));\<close>\<close>

definition PermutedData_call :: "'a PermutedData \<Rightarrow> int \<Rightarrow> (error + 'a) \<times> 'a PermutedData" where
  "PermutedData_call pd i =
     run_bind (view_read pd_permute i) (\<lambda>p. view_read pd_data p) pd"

text \<open>\<^verbatim>\<open>size()\<close>: \<^verbatim>\<open>return _data.size();\<close>\<close>

definition PermutedData_size :: "'a PermutedData \<Rightarrow> nat" where
  "PermutedData_size pd = length (pd_data pd)"

text \<open>\<^verbatim>\<open>AccessTraits<PermutedData, PredicatesTag>::size\<close>:
  \<^verbatim>\<open>return permuted_predicates._data.size();\<close>\<close>

definition AccessTraits_size :: "'a PermutedData \<Rightarrow> nat" where
  "AccessTraits_size permuted_predicates = length (pd_data permuted_predicates)"

text \<open>Modelled from the spec: \<^verbatim>\<open>attach\<close> (declared in ArborX\_Predicates.hpp, which is
  not among the sources) pairs a value with the given index.\<close>

definition attach :: "'a \<Rightarrow> int \<Rightarrow> 'a \<times> int" where
  "attach x index = (x, index)"

text \<open>\<^verbatim>\<open>AccessTraits::get\<close> for \<^verbatim>\<open>AttachIndices == true\<close>. The index is a
  \<^verbatim>\<open>std::size_t\<close>; the index attached is \<^verbatim>\<open>(int)index\<close>.\<close>

definition AccessTraits_get_attach ::
  "'a PermutedData \<Rightarrow> nat \<Rightarrow> (error + ('a \<times> int)) \<times> 'a PermutedData" where
  "AccessTraits_get_attach permuted_predicates index =
     run_bind (view_read pd_permute (int index)) (\<lambda>permuted_index.
     run_bind (view_read pd_data permuted_index) (\<lambda>x.
     run_return (attach x (int_cast (int index))))) permuted_predicates"

text \<open>\<^verbatim>\<open>AccessTraits::get\<close> for \<^verbatim>\<open>AttachIndices == false\<close>.\<close>

definition AccessTraits_get :: "'a PermutedData \<Rightarrow> nat \<Rightarrow> (error + 'a) \<times> 'a PermutedData" where
  "AccessTraits_get permuted_predicates index =
     run_bind (view_read pd_permute (int index)) (\<lambda>permuted_index.
     view_read pd_data permuted_index) permuted_predicates"

section \<open>Basic facts\<close>

lemma ebind_Inr [simp]: "ebind (Inr x) f = f x"
  by (simp add: ebind_def)

lemma ebind_Inl [simp]: "ebind (Inl e) f = Inl e"
  by (simp add: ebind_def)

lemma ebind_eq_Inr: "ebind m f = Inr y \<longleftrightarrow> (\<exists>x. m = Inr x \<and> f x = Inr y)"
  by (cases m) simp_all

lemma int_cast_id: "- (2 ^ 31) \<le> x \<Longrightarrow> x < 2 ^ 31 \<Longrightarrow> int_cast x = x"
  by (simp add: int_cast_def)

lemma int_cast_nat: "n < 2 ^ 31 \<Longrightarrow> int_cast (int n) = int n"
  by (rule int_cast_id) simp_all

lemma int_cast_wraps: "int_cast 2147483648 = - 2147483648"
  by (simp add: int_cast_def)

lemma int_add_in_range: "- (2 ^ 31) \<le> a + b \<Longrightarrow> a + b < 2 ^ 31 \<Longrightarrow> int_add a b = Inr (a + b)"
  by (simp add: int_add_def)

lemma view_read_in_range:
  "0 \<le> i \<Longrightarrow> i < int (length (member s)) \<Longrightarrow> view_read member i s = (Inr (member s ! nat i), s)"
  by (simp add: view_read_def at_def)

lemma run_bind_view_read:
  "0 \<le> i \<Longrightarrow> i < int (length (member s)) \<Longrightarrow>
   run_bind (view_read member i) f s = f (member s ! nat i) s"
  by (simp add: run_bind_def view_read_def at_def)

lemma at_in_range: "0 \<le> i \<Longrightarrow> i < int (length v) \<Longrightarrow> at v i = Inr (v ! nat i)"
  by (simp add: at_def)

lemma at_nat [simp]: "i < length v \<Longrightarrow> at v (int i) = Inr (v ! i)"
  by (simp add: at_def)

lemma at_eq_Inr: "at v i = Inr x \<longleftrightarrow> 0 \<le> i \<and> i < int (length v) \<and> x = v ! nat i"
  by (auto simp: at_def)

lemma assign_nat [simp]: "i < length v \<Longrightarrow> assign v (int i) x = Inr (v[i := x])"
  by (simp add: assign_def)

lemma assign_eq_Inr:
  "assign v i x = Inr v' \<longleftrightarrow> 0 \<le> i \<and> i < int (length v) \<and> v' = v[nat i := x]"
  by (auto simp: assign_def)

section \<open>PermutedData: size and access\<close>

text \<open>
  Claim C2, as amended. \<^verbatim>\<open>size()\<close>, the member function and the \<^verbatim>\<open>AccessTraits\<close>
  one alike, returns the extent of the underlying data, whatever the permutation is; it
  is the permutation's extent exactly when the two extents are equal.
\<close>

theorem PermutedData_size_is_data_extent:
  "PermutedData_size \<lparr>pd_data = d, pd_permute = p\<rparr> = length d
   \<and> AccessTraits_size \<lparr>pd_data = d, pd_permute = p\<rparr> = length d
   \<and> PermutedData_size \<lparr>pd_data = d, pd_permute = p\<rparr> = PermutedData_size \<lparr>pd_data = d, pd_permute = p'\<rparr>
   \<and> (PermutedData_size \<lparr>pd_data = d, pd_permute = p\<rparr> = length p \<longleftrightarrow> length d = length p)
   \<and> (AccessTraits_size \<lparr>pd_data = d, pd_permute = p\<rparr> = length p \<longleftrightarrow> length d = length p)"
  by (simp add: PermutedData_size_def AccessTraits_size_def)

text \<open>
  Claim C2 as stated fails: a permutation that selects two of three data items has extent
  2, and both \<^verbatim>\<open>size\<close> functions return 3.
\<close>

theorem PermutedData_size_not_permutation_extent:
  "PermutedData_size \<lparr>pd_data = [10, 20, 30 :: int], pd_permute = [0, 1]\<rparr> \<noteq> length [0, 1 :: int]
   \<and> AccessTraits_size \<lparr>pd_data = [10, 20, 30 :: int], pd_permute = [0, 1]\<rparr> \<noteq> length [0, 1 :: int]"
  by (simp add: PermutedData_size_def AccessTraits_size_def)

text \<open>
  Claim C7. For a logical index \<open>i\<close> of the permutation, one that an \<^verbatim>\<open>int\<close> holds
  (\<open>i < 2^31\<close>), whose entry is an index of the data: \<^verbatim>\<open>operator()\<close> and the plain
  \<^verbatim>\<open>get\<close> yield \<open>data[permutation[i]]\<close>, and the attaching \<^verbatim>\<open>get\<close> yields it paired
  with \<open>i\<close> itself, not with \<open>permutation[i]\<close>. Each of the three accesses leaves the
  object as it found it: the data and the permutation after the access are the data and
  the permutation before it.
\<close>

theorem PermutedData_access:
  assumes "i < length (pd_permute pd)"
    and "i < 2 ^ 31"
    and "0 \<le> pd_permute pd ! i"
    and "pd_permute pd ! i < int (length (pd_data pd))"
  shows "PermutedData_call pd (int i) = (Inr (pd_data pd ! nat (pd_permute pd ! i)), pd)
    \<and> AccessTraits_get pd i = (Inr (pd_data pd ! nat (pd_permute pd ! i)), pd)
    \<and> AccessTraits_get_attach pd i = (Inr (pd_data pd ! nat (pd_permute pd ! i), int i), pd)"
proof -
  have p: "run_bind (view_read pd_permute (int i)) f pd = f (pd_permute pd ! i) pd" for f :: "int \<Rightarrow> ('a PermutedData, 'r) run"
    using assms(1) by (simp add: run_bind_view_read)
  have d: "view_read pd_data (pd_permute pd ! i) pd = (Inr (pd_data pd ! nat (pd_permute pd ! i)), pd)"
    using assms(3,4) by (rule view_read_in_range)
  have d': "run_bind (view_read pd_data (pd_permute pd ! i)) g pd = g (pd_data pd ! nat (pd_permute pd ! i)) pd"
    for g :: "'a \<Rightarrow> ('a PermutedData, 'r) run"
    using assms(3,4) by (rule run_bind_view_read)
  have c: "int_cast (int i) = int i"
    using assms(2) by (rule int_cast_nat)
  have 1: "PermutedData_call pd (int i) = (Inr (pd_data pd ! nat (pd_permute pd ! i)), pd)"
    by (simp add: PermutedData_call_def p d)
  have 2: "AccessTraits_get pd i = (Inr (pd_data pd ! nat (pd_permute pd ! i)), pd)"
    by (simp add: AccessTraits_get_def p d)
  have 3: "AccessTraits_get_attach pd i = (Inr (pd_data pd ! nat (pd_permute pd ! i), int i), pd)"
    by (simp add: AccessTraits_get_attach_def p d' c run_return_def attach_def)
  from 1 2 3 show ?thesis
    by (intro conjI)
qed

theorem PermutedData_access_witness:
  "(1::nat) < length (pd_permute \<lparr>pd_data = [10, 20, 30 :: int], pd_permute = [2, 0, 0, 1]\<rparr>)
   \<and> PermutedData_call \<lparr>pd_data = [10, 20, 30 :: int], pd_permute = [2, 0, 0, 1]\<rparr> 1
       = (Inr 10, \<lparr>pd_data = [10, 20, 30], pd_permute = [2, 0, 0, 1]\<rparr>)
   \<and> AccessTraits_get \<lparr>pd_data = [10, 20, 30 :: int], pd_permute = [2, 0, 0, 1]\<rparr> 1
       = (Inr 10, \<lparr>pd_data = [10, 20, 30], pd_permute = [2, 0, 0, 1]\<rparr>)
   \<and> AccessTraits_get_attach \<lparr>pd_data = [10, 20, 30 :: int], pd_permute = [2, 0, 0, 1]\<rparr> 1
       = (Inr (10, 1), \<lparr>pd_data = [10, 20, 30], pd_permute = [2, 0, 0, 1]\<rparr>)"
  using PermutedData_access [of 1 "\<lparr>pd_data = [10, 20, 30 :: int], pd_permute = [2, 0, 0, 1]\<rparr>"]
  by simp

section \<open>countResults: the offsets it builds\<close>

lemma iterate_append: "iterate (xs @ ys) body s = ebind (iterate xs body s) (iterate ys body)"
  by (induction xs arbitrary: s) (auto simp: ebind_def split: sum.splits)

lemma iterate_cong: "(\<And>i s. i \<in> set xs \<Longrightarrow> body i s = body' i s) \<Longrightarrow> iterate xs body s = iterate xs body' s"
  by (induction xs arbitrary: s) (auto simp: ebind_def split: sum.splits)

lemma ebind_Inr_right [simp]: "ebind m Inr = m"
  by (cases m) simp_all

lemma parallel_for_int: "parallel_for (int n) body s = iterate (map int [0..<n]) body s"
  by (simp add: parallel_for_def)

lemma iterate_Nil_fun [simp]: "iterate [] body = Inr"
  by (rule ext) simp

lemma iterate_single [simp]: "iterate [x] body = body x"
  by (rule ext) simp

lemma parallel_for_Suc:
  "parallel_for (1 + int n) body s = ebind (parallel_for (int n) body s) (body (int n))"
proof -
  have "nat (1 + int n) = Suc n" by simp
  then show ?thesis
    by (simp add: parallel_for_def iterate_append)
qed

lemma parallel_for_0 [simp]: "parallel_for 0 body s = Inr s"
  by (simp add: parallel_for_def)

lemma iterate_upt_Suc:
  "iterate (map int [0..<Suc n]) body s = ebind (iterate (map int [0..<n]) body s) (body (int n))"
  by (simp add: iterate_append)

lemma atomic_increment_counts:
  assumes "0 \<le> x" "x < int m"
  shows "atomic_increment (counts m xs) x = Inr (counts m (xs @ [x]))"
  using assms
  apply (simp add: atomic_increment_def at_def assign_def counts_def)
  apply (rule nth_equalityI)
   apply simp
  apply (auto simp: nth_list_update)
  done

lemma count_loop:
  assumes "\<forall>q \<in> set ids. 0 \<le> q \<and> q < int m"
  shows "parallel_for (int (length ids))
           (\<lambda>i offset. ebind (at ids i) (\<lambda>q. atomic_increment offset q)) (replicate m 0)
         = Inr (counts m ids)"
  using assms
proof (induction ids rule: rev_induct)
  case Nil
  then show ?case by (simp add: counts_def map_replicate_const)
next
  case (snoc x xs)
  have "parallel_for (int (length xs))
           (\<lambda>i offset. ebind (at (xs @ [x]) i) (\<lambda>q. atomic_increment offset q)) (replicate m 0)
      = parallel_for (int (length xs))
           (\<lambda>i offset. ebind (at xs i) (\<lambda>q. atomic_increment offset q)) (replicate m 0)"
    unfolding parallel_for_int
    by (rule iterate_cong) (auto simp: at_def nth_append)
  with snoc show ?case
    by (simp add: parallel_for_Suc atomic_increment_counts)
qed

lemma sum_counts:
  assumes "\<forall>q \<in> set ids. 0 \<le> q \<and> q < int m"
  shows "sum_list (counts m ids) = int (length ids)"
  using assms
proof (induction ids)
  case Nil
  then show ?case by (simp add: counts_def)
next
  case (Cons x xs)
  then have x: "0 \<le> x" "x < int m" by simp_all
  have "sum_list (counts m (x # xs)) = (\<Sum>j = 0..<m. int (count_list (x # xs) (int j)))"
    by (simp add: counts_def interv_sum_list_conv_sum_set_nat)
  also have "\<dots> = (\<Sum>j = 0..<m. int (count_list xs (int j)) + (if j = nat x then 1 else 0))"
    using x by (intro sum.cong) auto
  also have "\<dots> = (\<Sum>j = 0..<m. int (count_list xs (int j))) + 1"
    using x by (simp add: sum.distrib)
  also have "(\<Sum>j = 0..<m. int (count_list xs (int j))) = sum_list (counts m xs)"
    by (simp add: counts_def interv_sum_list_conv_sum_set_nat)
  finally show ?case using Cons by simp
qed

lemma exclusive_scan_length [simp]: "length (exclusive_scan v init) = length v"
  by (simp add: exclusive_scan_def)

lemma exclusive_scan_nth:
  "i < length v \<Longrightarrow> exclusive_scan v init ! i = init + sum_list (take i v)"
  by (simp add: exclusive_scan_def)

lemma exclusive_scan_step:
  "Suc i < length v \<Longrightarrow> exclusive_scan v init ! Suc i = exclusive_scan v init ! i + v ! i"
  by (simp add: exclusive_scan_nth take_Suc_conv_app_nth)

lemma exclusive_scan_sorted:
  assumes "\<forall>x \<in> set v. 0 \<le> x"
  shows "sorted (exclusive_scan v init)"
proof -
  have "exclusive_scan v init ! i \<le> exclusive_scan v init ! Suc i" if "Suc i < length v" for i
    using that assms by (simp add: exclusive_scan_step)
  then show ?thesis
    by (simp add: sorted_iff_nth_Suc)
qed


lemma counts_take: "take m (counts (Suc m) ids) = counts m ids"
  by (simp add: counts_def take_map)

lemma counts_mset: "mset ids' = mset ids \<Longrightarrow> counts m ids' = counts m ids"
  by (simp add: counts_def flip: count_mset)

lemma countResults_eq:
  assumes "0 \<le> n" and "n < 2 ^ 31 - 1" and "length query_ids < 2 ^ 31"
    and "\<forall>q \<in> set query_ids. 0 \<le> q \<and> q < n"
  shows "countResults n query_ids offset = Inr (exclusive_scan (counts (Suc (nat n)) query_ids) 0)"
proof -
  have "\<forall>q \<in> set query_ids. 0 \<le> q \<and> q < int (Suc (nat n))"
    using assms(1,4) by auto
  from count_loop [OF this] have "parallel_for (int (length query_ids))
       (\<lambda>i offset. ebind (at query_ids i) (\<lambda>q. atomic_increment offset q))
       (replicate (nat (n + 1)) 0) = Inr (counts (Suc (nat n)) query_ids)"
    using assms(1) by (simp add: nat_add_distrib)
  moreover have "int_cast (int (length query_ids)) = int (length query_ids)"
    using assms(3) by (rule int_cast_nat)
  moreover have "int_add n 1 = Inr (n + 1)"
    using assms(1,2) by (intro int_add_in_range) simp_all
  ultimately show ?thesis
    using assms(1) by (simp add: countResults_def realloc_def)
qed

lemma countResults_overflow: "countResults 2147483647 query_ids offset = Inl SignedOverflow"
  by (simp add: countResults_def int_add_def)

text \<open>
  Claim C3. For \<open>n \<ge> 0\<close> and identifiers in \<open>[0, n)\<close>, \<^verbatim>\<open>countResults\<close> returns an
  offset array of length \<open>n + 1\<close> that is non-decreasing, starts at 0, ends at the number
  of identifiers, and whose consecutive differences are the numbers of occurrences of
  each query id. The result is the same for any prior contents of the offset view and
  for any reordering of the identifiers; \<open>n = 0\<close> is included. The sizes are those an
  \<^verbatim>\<open>int\<close> holds: \<open>n + 1\<close> and the number of identifiers are at most \<open>2^31 - 1\<close>.
\<close>

theorem countResults_offsets:
  assumes "0 \<le> n" and "n < 2 ^ 31 - 1" and "length query_ids < 2 ^ 31"
    and "\<forall>q \<in> set query_ids. 0 \<le> q \<and> q < n"
  shows "\<exists>offset'. countResults n query_ids offset = Inr offset'
     \<and> length offset' = nat n + 1
     \<and> sorted offset'
     \<and> offset' ! 0 = 0
     \<and> offset' ! nat n = int (length query_ids)
     \<and> (\<forall>q < nat n. offset' ! (q + 1) - offset' ! q = int (count_list query_ids (int q)))
     \<and> countResults n query_ids other_offset = Inr offset'
     \<and> (\<forall>ids'. mset ids' = mset query_ids \<longrightarrow> countResults n ids' offset = Inr offset')"
proof -
  let ?c = "counts (Suc (nat n)) query_ids"
  let ?r = "exclusive_scan ?c 0"
  have len: "length ?c = Suc (nat n)"
    by (simp add: counts_def)
  have in_range: "\<forall>q \<in> set query_ids. 0 \<le> q \<and> q < int (nat n)"
    using assms(1,4) by auto
  have 1: "countResults n query_ids offset = Inr ?r"
    and 2: "countResults n query_ids other_offset = Inr ?r"
    using assms by (rule countResults_eq)+
  have 3: "length ?r = nat n + 1"
    by (simp add: len)
  have 4: "sorted ?r"
    by (rule exclusive_scan_sorted) (auto simp: counts_def)
  have 5: "?r ! 0 = 0"
    by (simp add: exclusive_scan_nth len)
  have 6: "?r ! nat n = int (length query_ids)"
    using sum_counts [OF in_range] by (simp add: exclusive_scan_nth len counts_take)
  have 7: "?r ! (q + 1) - ?r ! q = int (count_list query_ids (int q))" if "q < nat n" for q
  proof -
    have "?r ! Suc q = ?r ! q + ?c ! q"
      using that by (intro exclusive_scan_step) (simp add: len)
    moreover have "?c ! q = int (count_list query_ids (int q))"
      using that by (simp add: counts_def del: upt_Suc)
    ultimately show ?thesis by simp
  qed
  have 8: "countResults n ids' offset = Inr ?r" if "mset ids' = mset query_ids" for ids'
  proof -
    have "set ids' = set query_ids"
      using that by (rule mset_eq_setD)
    with assms(4) have r: "\<forall>q \<in> set ids'. 0 \<le> q \<and> q < n"
      by simp
    have "length ids' = length query_ids"
      using that by (rule mset_eq_length)
    with assms(3) have l: "length ids' < 2 ^ 31"
      by simp
    from assms(1,2) l r
    have "countResults n ids' offset = Inr (exclusive_scan (counts (Suc (nat n)) ids') 0)"
      by (rule countResults_eq)
    also have "counts (Suc (nat n)) ids' = counts (Suc (nat n)) query_ids"
      using that by (rule counts_mset)
    finally show ?thesis .
  qed
  have all7: "\<forall>q < nat n. ?r ! (q + 1) - ?r ! q = int (count_list query_ids (int q))"
    by (intro allI impI) (rule 7)
  have all8: "\<forall>ids'. mset ids' = mset query_ids \<longrightarrow> countResults n ids' offset = Inr ?r"
    by (intro allI impI) (rule 8)
  from 1 3 4 5 6 all7 2 all8 show ?thesis
    by (intro exI [of _ ?r] conjI)
qed


theorem countResults_offsets_witness:
  "(0::int) \<le> 3 \<and> (\<exists>offset'. countResults 3 [2, 0, 2, 1, 2] [7, 7] = Inr offset'
     \<and> length offset' = 4 \<and> sorted offset' \<and> offset' ! 0 = 0 \<and> offset' ! 3 = 5
     \<and> offset' ! 3 - offset' ! 2 = 3
     \<and> countResults 3 [2, 0, 2, 1, 2] [] = Inr offset'
     \<and> countResults 3 [0, 1, 2, 2, 2] [7, 7] = Inr offset')
   \<and> countResults 3 [2, 0, 2, 1, 2] [7, 7] = Inr [0, 1, 2, 5]
   \<and> countResults 0 [] [7, 7] = Inr [0]"
proof -
  have e1: "countResults 3 [2, 0, 2, 1, 2] [7, 7] = Inr [0, 1, 2, 5]"
    by code_simp
  have e2: "countResults 0 [] [7, 7] = Inr [0]"
    by code_simp
  have h: "\<forall>q \<in> set [2, 0, 2, 1, 2 :: int]. 0 \<le> q \<and> q < 3"
    by simp
  have m: "mset [0, 1, 2, 2, 2 :: int] = mset [2, 0, 2, 1, 2]"
    by simp
  have "nat 3 = Suc 2"
    by simp
  have z: "(0::int) \<le> 3"
    by simp
  have b: "(3::int) < 2 ^ 31 - 1"
    by simp
  have l: "length [2, 0, 2, 1, 2 :: int] < 2 ^ 31"
    by simp
  from countResults_offsets [of 3 "[2, 0, 2, 1, 2]" "[7, 7]" "[]", OF z b l h]
  obtain offset' where o: "countResults 3 [2, 0, 2, 1, 2] [7, 7] = Inr offset'"
    "length offset' = nat 3 + 1" "sorted offset'" "offset' ! 0 = 0"
    "offset' ! nat 3 = int (length [2, 0, 2, 1, 2 :: int])"
    "\<forall>q < nat 3. offset' ! (q + 1) - offset' ! q = int (count_list [2, 0, 2, 1, 2] (int q))"
    "countResults 3 [2, 0, 2, 1, 2] [] = Inr offset'"
    "\<forall>ids'. mset ids' = mset [2, 0, 2, 1, 2] \<longrightarrow> countResults 3 ids' [7, 7] = Inr offset'"
    by (elim exE conjE) simp
  from o(6) have "2 < nat 3 \<longrightarrow>
      offset' ! (2 + 1) - offset' ! 2 = int (count_list [2, 0, 2, 1, 2 :: int] (int 2))"
    by (rule spec)
  then have d: "offset' ! 3 - offset' ! 2 = 3"
    by simp
  from o(8) m have p: "countResults 3 [0, 1, 2, 2, 2] [7, 7] = Inr offset'"
    by blast
  from z o(1-5) d o(7) p have "\<exists>offset'. countResults 3 [2, 0, 2, 1, 2] [7, 7] = Inr offset'
     \<and> length offset' = 4 \<and> sorted offset' \<and> offset' ! 0 = 0 \<and> offset' ! 3 = 5
     \<and> offset' ! 3 - offset' ! 2 = 3
     \<and> countResults 3 [2, 0, 2, 1, 2] [] = Inr offset'
     \<and> countResults 3 [0, 1, 2, 2, 2] [7, 7] = Inr offset'"
    by (intro conjI exI [of _ offset']) simp_all
  with z e1 e2 show ?thesis
    by (intro conjI)
qed

section \<open>sendAcrossNetwork: the extent assertion\<close>

lemma ball_1_7: "(\<forall>r \<in> {1..7::nat}. P r) \<longleftrightarrow> P 1 \<and> P 2 \<and> P 3 \<and> P 4 \<and> P 5 \<and> P 6 \<and> P 7"
proof -
  have "{1..7::nat} = {1, 2, 3, 4, 5, 6, 7}"
    by auto
  then show ?thesis
    by simp
qed

text \<open>
  Claim C8. \<^verbatim>\<open>sendAcrossNetwork\<close> ends with the assertion failure exactly when the
  export view's first extent is not the plan's total send length, or the import view's
  first extent is not the plan's total receive length, or the two views differ in one of
  the extents 1 to 7. The failure is the whole result: no view is returned and the
  exchange is not run. When the call returns a view, the three conditions hold and the
  import view has kept its extents.
\<close>

theorem sendAcrossNetwork_extent_assertion:
  "(sendAcrossNetwork distributor peers exports imports = Inl AssertionFailed
    \<longleftrightarrow> \<not> (extent exports 0 = getTotalSendLength distributor
          \<and> extent imports 0 = getTotalReceiveLength distributor
          \<and> (\<forall>r \<in> {1..7}. extent exports r = extent imports r)))
   \<and> (\<forall>v. sendAcrossNetwork distributor peers exports imports = Inr v \<longrightarrow>
          extent exports 0 = getTotalSendLength distributor
          \<and> extent imports 0 = getTotalReceiveLength distributor
          \<and> (\<forall>r \<in> {1..7}. extent exports r = extent imports r)
          \<and> extents v = extents imports)"
  unfolding ball_1_7
  by (auto simp: sendAcrossNetwork_def doPostsAndWaits_def ebind_def Let_def
      split: sum.splits if_splits)

theorem sendAcrossNetwork_extent_assertion_witness:
  "extent \<lparr>extents = [1, 2], elems = [5, 6 :: int]\<rparr> 1 \<noteq> extent \<lparr>extents = [1, 3], elems = [0, 0, 0 :: int]\<rparr> 1
   \<and> sendAcrossNetwork \<lparr>dist_rank = 0, dist_destinations = [[0]]\<rparr> [Inl PeerFailed]
        \<lparr>extents = [1, 2], elems = [5, 6 :: int]\<rparr> \<lparr>extents = [1, 3], elems = [0, 0, 0]\<rparr>
       = Inl AssertionFailed
   \<and> sendAcrossNetwork \<lparr>dist_rank = 0, dist_destinations = [[0]]\<rparr> [Inl PeerFailed]
        (View1 [5, 6 :: int]) (View1 [0])
       = Inl AssertionFailed
   \<and> sendAcrossNetwork \<lparr>dist_rank = 0, dist_destinations = [[0]]\<rparr> [Inl PeerFailed]
        \<lparr>extents = [1, 2], elems = [5, 6 :: int]\<rparr> \<lparr>extents = [1, 2], elems = [0, 0]\<rparr>
       = Inr \<lparr>extents = [1, 2], elems = [5, 6]\<rparr>"
  using sendAcrossNetwork_extent_assertion [of "\<lparr>dist_rank = 0, dist_destinations = [[0]]\<rparr>"
      "[Inl PeerFailed]" "\<lparr>extents = [1, 2], elems = [5, 6 :: int]\<rparr>"
      "\<lparr>extents = [1, 3], elems = [0, 0, 0]\<rparr>"]
    sendAcrossNetwork_extent_assertion [of "\<lparr>dist_rank = 0, dist_destinations = [[0]]\<rparr>"
      "[Inl PeerFailed]" "View1 [5, 6 :: int]" "View1 [0]"]
  by (simp add: sendAcrossNetwork_def doPostsAndWaits_def extent_def View1_def
      getTotalSendLength_def getTotalReceiveLength_def arrivals_def packet_def)

section \<open>forwardQueries: the export buffers and their exchange\<close>

lemma fill_cells_length [simp]: "length (fill_cells b lo hi x) = length b"
  by (simp add: fill_cells_def)

lemma fill_cells_nth:
  "i < length b \<Longrightarrow> fill_cells b lo hi x ! i = (if lo \<le> int i \<and> int i < hi then x else b ! i)"
  by (simp add: fill_cells_def)

lemma fill_cells_empty: "hi \<le> lo \<Longrightarrow> fill_cells b lo hi x = b"
  by (rule nth_equalityI) (auto simp: fill_cells_nth)

lemma fill_cells_step:
  assumes "0 \<le> lo" "lo < hi"
  shows "fill_cells (b[nat lo := x]) (lo + 1) hi x = fill_cells b lo hi x"
  using assms by (intro nth_equalityI) (auto simp: fill_cells_nth nth_list_update)

lemma for_range_assign:
  assumes "0 \<le> lo" "hi \<le> int (length b)"
  shows "for_range lo hi (\<lambda>i b. ebind (Inr x) (\<lambda>x. assign b i x)) b = Inr (fill_cells b lo hi x)"
  using assms
proof (induction "nat (hi - lo)" arbitrary: lo b)
  case 0
  then have "hi \<le> lo" by simp
  then show ?case
    by (simp add: for_range_def fill_cells_empty)
next
  case (Suc k)
  then have lt: "lo < hi" by linarith
  then have up: "[lo..hi - 1] = lo # [lo + 1..hi - 1]"
    by (simp add: upto_rec1)
  have a: "assign b lo x = Inr (b[nat lo := x])"
    using Suc.prems lt by (simp add: assign_def)
  have "for_range (lo + 1) hi (\<lambda>i b. ebind (Inr x) (\<lambda>x. assign b i x)) (b[nat lo := x])
      = Inr (fill_cells (b[nat lo := x]) (lo + 1) hi x)"
    using Suc.prems Suc.hyps(2) by (intro Suc.hyps(1)) auto
  then show ?case
    using a Suc.prems lt by (simp add: for_range_def up fill_cells_step)
qed

lemma parallel_for_invariant:
  assumes "I 0 s"
    and "\<And>q s. q < n \<Longrightarrow> I q s \<Longrightarrow> \<exists>s'. body (int q) s = Inr s' \<and> I (Suc q) s'"
  shows "\<exists>s'. parallel_for (int n) body s = Inr s' \<and> I n s'"
  using assms(2)
proof (induction n)
  case 0
  with assms(1) show ?case by simp
next
  case (Suc n)
  then obtain s' where s': "parallel_for (int n) body s = Inr s'" "I n s'"
    by force
  from Suc.prems [of n s'] s' obtain s'' where "body (int n) s' = Inr s''" "I (Suc n) s''"
    by auto
  with s' show ?case
    by (simp add: parallel_for_Suc)
qed


lemma csr_nth_mono: "csr offset n \<Longrightarrow> i \<le> j \<Longrightarrow> j \<le> n \<Longrightarrow> offset ! i \<le> offset ! j"
  by (simp add: csr_def sorted_nth_mono)

lemma csr_nonneg: "csr offset n \<Longrightarrow> i \<le> n \<Longrightarrow> 0 \<le> offset ! i"
  using csr_nth_mono [of offset n 0 i] by (simp add: csr_def)

lemma csr_last: "csr offset n \<Longrightarrow> last offset = offset ! n"
  by (cases offset rule: rev_cases) (auto simp: csr_def nth_append)

lemma csr_owner:
  assumes "csr offset n" and "int i < offset ! n"
  shows "\<exists>q<n. offset ! q \<le> int i \<and> int i < offset ! Suc q"
proof (rule ccontr)
  assume no: "\<not> ?thesis"
  have "q \<le> n \<Longrightarrow> offset ! q \<le> int i" for q
  proof (induction q)
    case 0
    with assms(1) show ?case by (simp add: csr_def)
  next
    case (Suc q)
    with no show ?case by force
  qed
  from this [of n] assms(2) show False by simp
qed

lemma fill_buffer_correct:
  assumes csr: "csr offset n"
    and len: "offset ! n \<le> int (length b)"
    and val: "\<And>q. q < n \<Longrightarrow> val (int q) = Inr (v q)"
  shows "\<exists>b'. fill_buffer (int n) offset val b = Inr b' \<and> length b' = length b
           \<and> (\<forall>q<n. \<forall>i. offset ! q \<le> int i \<and> int i < offset ! Suc q \<longrightarrow> b' ! i = v q)"
proof -
  let ?I = "\<lambda>m b'. length b' = length b
      \<and> (\<forall>q<m. \<forall>i. offset ! q \<le> int i \<and> int i < offset ! Suc q \<longrightarrow> b' ! i = v q)"
  let ?body = "\<lambda>q buffer. ebind (at offset q) (\<lambda>lo. ebind (at offset (q + 1)) (\<lambda>hi.
       for_range lo hi (\<lambda>i buffer. ebind (val q) (\<lambda>x. assign buffer i x)) buffer))"
  have step: "\<exists>s'. ?body (int m) s = Inr s' \<and> ?I (Suc m) s'" if m: "m < n" and inv: "?I m s" for m s
  proof -
    have lo: "0 \<le> offset ! m" and hi: "offset ! Suc m \<le> int (length s)"
      using csr_nonneg [OF csr, of m] csr_nth_mono [OF csr, of "Suc m" n] m len inv by auto
    have rd: "at offset (int m) = Inr (offset ! m)" "at offset (int m + 1) = Inr (offset ! Suc m)"
      using csr m by (auto simp: csr_def at_def nat_add_distrib)
    have run: "?body (int m) s = Inr (fill_cells s (offset ! m) (offset ! Suc m) (v m))"
      using for_range_assign [OF lo hi, of "v m"] val [OF m] rd by simp
    have "?I (Suc m) (fill_cells s (offset ! m) (offset ! Suc m) (v m))"
    proof (intro conjI allI impI)
      show "length (fill_cells s (offset ! m) (offset ! Suc m) (v m)) = length b"
        using inv by simp
    next
      fix q i
      assume q: "q < Suc m" and i: "offset ! q \<le> int i \<and> int i < offset ! Suc q"
      have "offset ! Suc q \<le> offset ! Suc m"
        using csr_nth_mono [OF csr, of "Suc q" "Suc m"] q m by simp
      with i hi have il: "i < length s" by linarith
      show "fill_cells s (offset ! m) (offset ! Suc m) (v m) ! i = v q"
      proof (cases "q = m")
        case True
        with i il show ?thesis by (simp add: fill_cells_nth)
      next
        case False
        with q have qm: "q < m" by simp
        then have "offset ! Suc q \<le> offset ! m"
          using csr_nth_mono [OF csr, of "Suc q" m] m by simp
        with i have "\<not> (offset ! m \<le> int i)" by simp
        with il inv qm i show ?thesis by (simp add: fill_cells_nth)
      qed
    qed
    with run show ?thesis by blast
  qed
  have "\<exists>s'. parallel_for (int n) ?body b = Inr s' \<and> ?I n s'"
    by (rule parallel_for_invariant [where I = ?I]) (use step in auto)
  then show ?thesis
    by (simp add: fill_buffer_def)
qed


lemma collect_map:
  "(\<And>x. x \<in> set xs \<Longrightarrow> f x = Inr (g x)) \<Longrightarrow> collect (map f xs) = Inr (map g xs)"
  by (induction xs) simp_all

lemma elems_View1 [simp]: "elems (View1 xs) = xs"
  by (simp add: View1_def)

lemma extent_View1: "extent (View1 xs) r = (if r = 0 then length xs else 1)"
  by (simp add: extent_def View1_def)

lemma arrivals_member:
  "(s, i) \<in> set (arrivals d) \<longleftrightarrow>
     s < length (dist_destinations d) \<and> i < length (dist_destinations d ! s)
     \<and> dist_destinations d ! s ! i = int (dist_rank d)"
  by (auto simp: arrivals_def)

lemma packet_View1: "i < length b \<Longrightarrow> packet (View1 b) (Suc 0) i = [b ! i]"
  by (simp add: packet_def View1_def take_Suc_conv_app_nth)

lemma concat_map_single: "concat (map (\<lambda>x. [f x]) xs) = map f xs"
  by (induction xs) simp_all

lemma sendAcrossNetwork_rank1:
  assumes r: "dist_rank d < length (dist_destinations d)"
    and peers: "\<And>s. s < length (dist_destinations d) \<Longrightarrow>
       buffer_of s = Inr (bufs s) \<and> length (bufs s) = length (dist_destinations d ! s)"
    and imp: "length imports = getTotalReceiveLength d"
  shows "sendAcrossNetwork d (group_views (length (dist_destinations d)) buffer_of)
           (View1 (bufs (dist_rank d))) (View1 imports)
         = Inr (View1 (map (\<lambda>(s, i). bufs s ! i) (arrivals d)))"
proof -
  let ?n = "length (dist_destinations d)"
  let ?g = "group_views ?n buffer_of"
  have g: "?g = map (\<lambda>s. Inr (View1 (bufs s))) [0..<?n]"
    using peers by (simp add: group_views_def)
  have own: "?g[dist_rank d := Inr (View1 (bufs (dist_rank d)))] = ?g"
    unfolding g using r by (intro nth_equalityI) (auto simp: nth_list_update)
  have col: "collect ?g = Inr (map (\<lambda>s. View1 (bufs s)) [0..<?n])"
    unfolding g by (rule collect_map) simp
  have "map (\<lambda>(s, i). packet (map (\<lambda>s. View1 (bufs s)) [0..<?n] ! s) (Suc 0) i) (arrivals d)
      = map (\<lambda>(s, i). [bufs s ! i]) (arrivals d)"
    using peers by (intro map_cong refl) (auto simp: arrivals_member packet_View1)
  then have "concat (map (\<lambda>(s, i). packet (map (\<lambda>s. View1 (bufs s)) [0..<?n] ! s) (Suc 0) i) (arrivals d))
      = concat (map (\<lambda>p. [bufs (fst p) ! snd p]) (arrivals d))"
    by (simp only: split_def)
  then have cat: "concat (map (\<lambda>(s, i). packet (map (\<lambda>s. View1 (bufs s)) [0..<?n] ! s) (Suc 0) i) (arrivals d))
      = map (\<lambda>(s, i). bufs s ! i) (arrivals d)"
    by (simp only: concat_map_single split_def)
  have all: "list_all (\<lambda>s. length (elems (map (\<lambda>s. View1 (bufs s)) [0..<?n] ! s))
      = length (dist_destinations d ! s) * Suc 0) [0..<?n]"
    using peers by (simp add: list_all_iff View1_def)
  have dp: "doPostsAndWaits d ?g (Suc 0) = Inr (map (\<lambda>(s, i). bufs s ! i) (arrivals d))"
    using all cat by (simp add: doPostsAndWaits_def col)
  have asrt: "length (bufs (dist_rank d)) = getTotalSendLength d"
    using peers [OF r] by (simp add: getTotalSendLength_def)
  show ?thesis
    using asrt imp dp
    by (simp add: sendAcrossNetwork_def extent_View1 own) (simp add: View1_def getTotalReceiveLength_def)
qed


lemma forward_ok_offset:
  assumes "forward_ok n_procs args"
  shows "csr (fa_offset args) (length (fa_queries args))"
    and "lastElement (fa_offset args) = Inr (int (length (fa_indices args)))"
    and "fa_offset args ! length (fa_queries args) = int (length (fa_indices args))"
proof -
  show c: "csr (fa_offset args) (length (fa_queries args))"
    using assms by (simp add: forward_ok_def)
  then have "fa_offset args \<noteq> []"
    by (auto simp: csr_def)
  then show "lastElement (fa_offset args) = Inr (int (length (fa_indices args)))"
    using assms by (simp add: lastElement_def forward_ok_def)
  show "fa_offset args ! length (fa_queries args) = int (length (fa_indices args))"
    using assms csr_last [OF c] by (simp add: forward_ok_def)
qed

lemma uninitialized_int [simp]: "uninitialized memory (int n) = Inr (map memory [0..<n])"
  by (simp add: uninitialized_def)

lemma forward_export_ranks_ok:
  assumes "forward_ok n_procs args"
  shows "forward_export_ranks memory args r = Inr (replicate (length (fa_indices args)) (int r))"
  using forward_ok_offset(2) [OF assms]
  by (simp add: forward_export_ranks_def deep_copy_value_def map_replicate_const)

lemma forward_exports_ok:
  assumes "forward_ok n_procs args"
  shows "\<exists>exports. forward_exports memory args = Inr exports
     \<and> length exports = length (fa_indices args)
     \<and> (\<forall>q < length (fa_queries args). \<forall>i.
           fa_offset args ! q \<le> int i \<and> int i < fa_offset args ! Suc q \<longrightarrow>
           exports ! i = fa_queries args ! q)"
proof -
  note o = forward_ok_offset [OF assms]
  have "\<exists>b'. fill_buffer (int (length (fa_queries args))) (fa_offset args)
          (\<lambda>q. at (fa_queries args) q) (map memory [0..<length (fa_indices args)]) = Inr b'
        \<and> length b' = length (map memory [0..<length (fa_indices args)])
        \<and> (\<forall>q < length (fa_queries args). \<forall>i.
             fa_offset args ! q \<le> int i \<and> int i < fa_offset args ! Suc q \<longrightarrow>
             b' ! i = fa_queries args ! q)"
    using o(1) by (rule fill_buffer_correct) (simp_all add: o(3))
  then show ?thesis
    by (simp add: forward_exports_def Let_def o(2))
qed

lemma forward_export_ids_ok:
  assumes "forward_ok n_procs args"
  shows "\<exists>export_ids. forward_export_ids memory args = Inr export_ids
     \<and> length export_ids = length (fa_indices args)
     \<and> (\<forall>q < length (fa_queries args). \<forall>i.
           fa_offset args ! q \<le> int i \<and> int i < fa_offset args ! Suc q \<longrightarrow>
           export_ids ! i = int q)"
proof -
  note o = forward_ok_offset [OF assms]
  have "\<exists>b'. fill_buffer (int (length (fa_queries args))) (fa_offset args)
          (\<lambda>q. Inr q) (map memory [0..<length (fa_indices args)]) = Inr b'
        \<and> length b' = length (map memory [0..<length (fa_indices args)])
        \<and> (\<forall>q < length (fa_queries args). \<forall>i.
             fa_offset args ! q \<le> int i \<and> int i < fa_offset args ! Suc q \<longrightarrow>
             b' ! i = int q)"
    using o(1) by (rule fill_buffer_correct) (simp_all add: o(3))
  then show ?thesis
    by (simp add: forward_export_ids_def Let_def o(2))
qed

lemma createFromSends_ok:
  assumes "list_all (forward_ok (length comm)) comm"
  shows "createFromSends r (map fa_indices comm)
     = Inr \<lparr>dist_rank = r, dist_destinations = map fa_indices comm\<rparr>"
  using assms by (simp add: createFromSends_def list_all_iff forward_ok_def)


lemma forwardQueries_eq:
  assumes r: "comm_rank < length comm"
    and ok: "list_all (forward_ok (length comm)) comm"
    and ex: "\<And>s. s < length comm \<Longrightarrow>
       forward_exports (query_memory s) (comm ! s) = Inr (exs s)
       \<and> length (exs s) = length (fa_indices (comm ! s))"
    and ids: "\<And>s. s < length comm \<Longrightarrow>
       forward_export_ids (int_memory s) (comm ! s) = Inr (ids s)
       \<and> length (ids s) = length (fa_indices (comm ! s))"
    and d: "d = \<lparr>dist_rank = comm_rank, dist_destinations = map fa_indices comm\<rparr>"
  shows "forwardQueries comm comm_rank int_memory query_memory
     = Inr \<lparr>fwd_queries = map (\<lambda>(s, i). exs s ! i) (arrivals d),
            fwd_ids = map (\<lambda>(s, i). ids s ! i) (arrivals d),
            fwd_ranks = map (\<lambda>(s, i). replicate (length (fa_indices (comm ! s))) (int s) ! i) (arrivals d)\<rparr>"
proof -
  have okr: "forward_ok (length comm) (comm ! s)" if "s < length comm" for s
    using ok that by (simp add: list_all_length)
  have dl: "length (dist_destinations d) = length comm" "dist_rank d = comm_rank"
    by (simp_all add: d)
  have dn: "dist_destinations d ! s = fa_indices (comm ! s)" if "s < length comm" for s
    using that by (simp add: d)
  have s1: "sendAcrossNetwork d
      (group_views (length comm) (\<lambda>s. forward_export_ranks (int_memory s) (comm ! s) s))
      (View1 (replicate (length (fa_indices (comm ! comm_rank))) (int comm_rank)))
      (View1 (map (int_memory comm_rank) [0..<getTotalReceiveLength d]))
    = Inr (View1 (map (\<lambda>(s, i). replicate (length (fa_indices (comm ! s))) (int s) ! i) (arrivals d)))"
    using sendAcrossNetwork_rank1 [of d "\<lambda>s. forward_export_ranks (int_memory s) (comm ! s) s"
        "\<lambda>s. replicate (length (fa_indices (comm ! s))) (int s)"
        "map (int_memory comm_rank) [0..<getTotalReceiveLength d]"]
      r forward_export_ranks_ok [OF okr]
    by (simp add: dl dn)
  have s2: "sendAcrossNetwork d
      (group_views (length comm) (\<lambda>s. forward_exports (query_memory s) (comm ! s)))
      (View1 (exs comm_rank))
      (View1 (map (query_memory comm_rank) [0..<getTotalReceiveLength d]))
    = Inr (View1 (map (\<lambda>(s, i). exs s ! i) (arrivals d)))"
    using sendAcrossNetwork_rank1 [of d "\<lambda>s. forward_exports (query_memory s) (comm ! s)" exs
        "map (query_memory comm_rank) [0..<getTotalReceiveLength d]"]
      r ex
    by (simp add: dl dn)
  have s3: "sendAcrossNetwork d
      (group_views (length comm) (\<lambda>s. forward_export_ids (int_memory s) (comm ! s)))
      (View1 (ids comm_rank))
      (View1 (map (int_memory comm_rank) [0..<getTotalReceiveLength d]))
    = Inr (View1 (map (\<lambda>(s, i). ids s ! i) (arrivals d)))"
    using sendAcrossNetwork_rank1 [of d "\<lambda>s. forward_export_ids (int_memory s) (comm ! s)" ids
        "map (int_memory comm_rank) [0..<getTotalReceiveLength d]"]
      r ids
    by (simp add: dl dn)
  have c: "createFromSends comm_rank (map fa_indices comm) = Inr d"
    using createFromSends_ok [OF ok] by (simp add: d)
  show ?thesis
    using forward_ok_offset(2) [OF okr [OF r]] forward_export_ranks_ok [OF okr [OF r]] ex [OF r] ids [OF r]
    by (simp add: forwardQueries_def Let_def c s1 s2 s3)
qed


text \<open>
  Claim C4. In a communicator whose processes all pass well-formed arguments, the process
  of rank \<open>comm_rank\<close> builds three export buffers of length \<open>offset(n)\<close>; at every
  position \<open>i\<close> of the range \<open>[offset(q), offset(q+1))\<close> of a query \<open>q\<close> they hold
  \<open>queries(q)\<close>, \<open>q\<close> and the process's own rank. Every export position lies in the range
  of some query, so a query with an empty destination list owns no position, and with
  no query the buffers are empty. The three buffers go through the one plan built from
  the destination lists: at every import position \<open>j\<close>, with sender \<open>s\<close> and export
  position \<open>i\<close> given by the plan, the three received values are the sender's rank, the
  query of \<open>s\<close> whose range holds \<open>i\<close>, and that query's index, and \<open>i\<close> is a position
  that \<open>s\<close> destined to this process.
\<close>

theorem forwardQueries_exports_aligned:
  assumes r: "comm_rank < length comm"
    and ok: "list_all (forward_ok (length comm)) comm"
  shows "\<exists>export_ranks exports export_ids distributor out.
      forward_export_ranks (int_memory comm_rank) (comm ! comm_rank) comm_rank = Inr export_ranks
    \<and> forward_exports (query_memory comm_rank) (comm ! comm_rank) = Inr exports
    \<and> forward_export_ids (int_memory comm_rank) (comm ! comm_rank) = Inr export_ids
    \<and> int (length export_ranks) = last (fa_offset (comm ! comm_rank))
    \<and> int (length exports) = last (fa_offset (comm ! comm_rank))
    \<and> int (length export_ids) = last (fa_offset (comm ! comm_rank))
    \<and> (\<forall>q < length (fa_queries (comm ! comm_rank)). \<forall>i.
          fa_offset (comm ! comm_rank) ! q \<le> int i \<and> int i < fa_offset (comm ! comm_rank) ! Suc q \<longrightarrow>
          exports ! i = fa_queries (comm ! comm_rank) ! q \<and> export_ids ! i = int q
          \<and> export_ranks ! i = int comm_rank)
    \<and> (\<forall>i < length exports. \<exists>q < length (fa_queries (comm ! comm_rank)).
          fa_offset (comm ! comm_rank) ! q \<le> int i \<and> int i < fa_offset (comm ! comm_rank) ! Suc q)
    \<and> createFromSends comm_rank (map fa_indices comm) = Inr distributor
    \<and> forwardQueries comm comm_rank int_memory query_memory = Inr out
    \<and> length (fwd_queries out) = getTotalReceiveLength distributor
    \<and> length (fwd_ids out) = getTotalReceiveLength distributor
    \<and> length (fwd_ranks out) = getTotalReceiveLength distributor
    \<and> (\<forall>j < getTotalReceiveLength distributor. \<exists>s i q.
          arrivals distributor ! j = (s, i) \<and> s < length comm
          \<and> fa_indices (comm ! s) ! i = int comm_rank
          \<and> q < length (fa_queries (comm ! s))
          \<and> fa_offset (comm ! s) ! q \<le> int i \<and> int i < fa_offset (comm ! s) ! Suc q
          \<and> fwd_queries out ! j = fa_queries (comm ! s) ! q
          \<and> fwd_ids out ! j = int q
          \<and> fwd_ranks out ! j = int s)"
proof -
  define d where "d = \<lparr>dist_rank = comm_rank, dist_destinations = map fa_indices comm\<rparr>"
  have okr: "forward_ok (length comm) (comm ! s)" if "s < length comm" for s
    using ok that by (simp add: list_all_length)
  have "\<forall>s. \<exists>e. s < length comm \<longrightarrow>
      forward_exports (query_memory s) (comm ! s) = Inr e
      \<and> length e = length (fa_indices (comm ! s))
      \<and> (\<forall>q < length (fa_queries (comm ! s)). \<forall>i.
           fa_offset (comm ! s) ! q \<le> int i \<and> int i < fa_offset (comm ! s) ! Suc q \<longrightarrow>
           e ! i = fa_queries (comm ! s) ! q)"
    using forward_exports_ok [OF okr] by blast
  from choice [OF this] obtain exs where exs: "\<And>s. s < length comm \<Longrightarrow>
      forward_exports (query_memory s) (comm ! s) = Inr (exs s)
      \<and> length (exs s) = length (fa_indices (comm ! s))
      \<and> (\<forall>q < length (fa_queries (comm ! s)). \<forall>i.
           fa_offset (comm ! s) ! q \<le> int i \<and> int i < fa_offset (comm ! s) ! Suc q \<longrightarrow>
           exs s ! i = fa_queries (comm ! s) ! q)"
    by blast
  have "\<forall>s. \<exists>e. s < length comm \<longrightarrow>
      forward_export_ids (int_memory s) (comm ! s) = Inr e
      \<and> length e = length (fa_indices (comm ! s))
      \<and> (\<forall>q < length (fa_queries (comm ! s)). \<forall>i.
           fa_offset (comm ! s) ! q \<le> int i \<and> int i < fa_offset (comm ! s) ! Suc q \<longrightarrow>
           e ! i = int q)"
    using forward_export_ids_ok [OF okr] by blast
  from choice [OF this] obtain ids where ids: "\<And>s. s < length comm \<Longrightarrow>
      forward_export_ids (int_memory s) (comm ! s) = Inr (ids s)
      \<and> length (ids s) = length (fa_indices (comm ! s))
      \<and> (\<forall>q < length (fa_queries (comm ! s)). \<forall>i.
           fa_offset (comm ! s) ! q \<le> int i \<and> int i < fa_offset (comm ! s) ! Suc q \<longrightarrow>
           ids s ! i = int q)"
    by blast
  let ?args = "comm ! comm_rank"
  let ?rk = "\<lambda>s. replicate (length (fa_indices (comm ! s))) (int s)"
  let ?out = "\<lparr>fwd_queries = map (\<lambda>(s, i). exs s ! i) (arrivals d),
            fwd_ids = map (\<lambda>(s, i). ids s ! i) (arrivals d),
            fwd_ranks = map (\<lambda>(s, i). ?rk s ! i) (arrivals d)\<rparr>"
  note o = forward_ok_offset [OF okr]
  have last: "last (fa_offset (comm ! s)) = int (length (fa_indices (comm ! s)))" if "s < length comm" for s
    using okr [OF that] by (simp add: forward_ok_def)
  have owner: "\<exists>q < length (fa_queries (comm ! s)).
      fa_offset (comm ! s) ! q \<le> int i \<and> int i < fa_offset (comm ! s) ! Suc q"
    if "s < length comm" "i < length (fa_indices (comm ! s))" for s i
    using csr_owner [OF o(1) [OF that(1)], of i] o(3) [OF that(1)] that(2) by simp
  have 1: "forward_export_ranks (int_memory comm_rank) ?args comm_rank = Inr (?rk comm_rank)"
    using okr [OF r] by (rule forward_export_ranks_ok)
  have 2: "forward_exports (query_memory comm_rank) ?args = Inr (exs comm_rank)"
    and 3: "forward_export_ids (int_memory comm_rank) ?args = Inr (ids comm_rank)"
    using exs [OF r] ids [OF r] by simp_all
  have 4: "int (length (?rk comm_rank)) = last (fa_offset ?args)"
    and 5: "int (length (exs comm_rank)) = last (fa_offset ?args)"
    and 6: "int (length (ids comm_rank)) = last (fa_offset ?args)"
    using exs [OF r] ids [OF r] last [OF r] by simp_all
  have 7: "\<forall>q < length (fa_queries ?args). \<forall>i.
          fa_offset ?args ! q \<le> int i \<and> int i < fa_offset ?args ! Suc q \<longrightarrow>
          exs comm_rank ! i = fa_queries ?args ! q \<and> ids comm_rank ! i = int q
          \<and> ?rk comm_rank ! i = int comm_rank"
  proof (intro allI impI)
    fix q i
    assume q: "q < length (fa_queries ?args)"
      and i: "fa_offset ?args ! q \<le> int i \<and> int i < fa_offset ?args ! Suc q"
    have "fa_offset ?args ! Suc q \<le> fa_offset ?args ! length (fa_queries ?args)"
      using csr_nth_mono [OF o(1) [OF r], of "Suc q" "length (fa_queries ?args)"] q by simp
    with i o(3) [OF r] have "i < length (fa_indices ?args)"
      by simp
    with exs [OF r] ids [OF r] q i
    show "exs comm_rank ! i = fa_queries ?args ! q \<and> ids comm_rank ! i = int q
          \<and> ?rk comm_rank ! i = int comm_rank"
      by simp
  qed
  have 8: "\<forall>i < length (exs comm_rank). \<exists>q < length (fa_queries ?args).
          fa_offset ?args ! q \<le> int i \<and> int i < fa_offset ?args ! Suc q"
    using owner [OF r] exs [OF r] by simp
  have 9: "createFromSends comm_rank (map fa_indices comm) = Inr d"
    using createFromSends_ok [OF ok] by (simp add: d_def)
  have 10: "forwardQueries comm comm_rank int_memory query_memory = Inr ?out"
    using r ok _ _ d_def by (rule forwardQueries_eq) (use exs ids in simp_all)
  have 11: "length (fwd_queries ?out) = getTotalReceiveLength d"
    and 12: "length (fwd_ids ?out) = getTotalReceiveLength d"
    and 13: "length (fwd_ranks ?out) = getTotalReceiveLength d"
    by (simp_all add: getTotalReceiveLength_def)
  have 14: "\<forall>j < getTotalReceiveLength d. \<exists>s i q.
          arrivals d ! j = (s, i) \<and> s < length comm
          \<and> fa_indices (comm ! s) ! i = int comm_rank
          \<and> q < length (fa_queries (comm ! s))
          \<and> fa_offset (comm ! s) ! q \<le> int i \<and> int i < fa_offset (comm ! s) ! Suc q
          \<and> fwd_queries ?out ! j = fa_queries (comm ! s) ! q
          \<and> fwd_ids ?out ! j = int q
          \<and> fwd_ranks ?out ! j = int s"
  proof (intro allI impI)
    fix j
    assume j: "j < getTotalReceiveLength d"
    obtain s i where si: "arrivals d ! j = (s, i)"
      by (cases "arrivals d ! j")
    from j have "arrivals d ! j \<in> set (arrivals d)"
      by (simp add: getTotalReceiveLength_def)
    with si have m: "s < length comm" "i < length (fa_indices (comm ! s))"
      "fa_indices (comm ! s) ! i = int comm_rank"
      by (auto simp: arrivals_member d_def)
    from owner [OF m(1,2)] obtain q where q: "q < length (fa_queries (comm ! s))"
      "fa_offset (comm ! s) ! q \<le> int i \<and> int i < fa_offset (comm ! s) ! Suc q"
      by blast
    have "fwd_queries ?out ! j = fa_queries (comm ! s) ! q \<and> fwd_ids ?out ! j = int q
          \<and> fwd_ranks ?out ! j = int s"
      using j si exs [OF m(1)] ids [OF m(1)] q m(2) by (simp add: getTotalReceiveLength_def)
    with si m q show "\<exists>s i q. arrivals d ! j = (s, i) \<and> s < length comm
          \<and> fa_indices (comm ! s) ! i = int comm_rank
          \<and> q < length (fa_queries (comm ! s))
          \<and> fa_offset (comm ! s) ! q \<le> int i \<and> int i < fa_offset (comm ! s) ! Suc q
          \<and> fwd_queries ?out ! j = fa_queries (comm ! s) ! q
          \<and> fwd_ids ?out ! j = int q
          \<and> fwd_ranks ?out ! j = int s"
      by blast
  qed
  from 1 2 3 4 5 6 7 8 9 10 11 12 13 14 show ?thesis
    by (intro exI [of _ "?rk comm_rank"] exI [of _ "exs comm_rank"] exI [of _ "ids comm_rank"]
        exI [of _ d] exI [of _ ?out] conjI)
qed

theorem forwardQueries_exports_aligned_witness:
  "(0::nat) < length [\<lparr>fa_queries = [10, 20, 30 :: nat], fa_indices = [1, 0, 1], fa_offset = [0, 2, 2, 3]\<rparr>,
        \<lparr>fa_queries = [40], fa_indices = [0, 1], fa_offset = [0, 2]\<rparr>]
   \<and> list_all (forward_ok 2)
        [\<lparr>fa_queries = [10, 20, 30 :: nat], fa_indices = [1, 0, 1], fa_offset = [0, 2, 2, 3]\<rparr>,
         \<lparr>fa_queries = [40], fa_indices = [0, 1], fa_offset = [0, 2]\<rparr>]
   \<and> forward_exports (\<lambda>_. 77)
        \<lparr>fa_queries = [10, 20, 30 :: nat], fa_indices = [1, 0, 1], fa_offset = [0, 2, 2, 3]\<rparr>
       = Inr [10, 10, 30]
   \<and> forward_export_ids (\<lambda>_. 99)
        \<lparr>fa_queries = [10, 20, 30 :: nat], fa_indices = [1, 0, 1], fa_offset = [0, 2, 2, 3]\<rparr>
       = Inr [0, 0, 2]
   \<and> forwardQueries
        [\<lparr>fa_queries = [10, 20, 30 :: nat], fa_indices = [1, 0, 1], fa_offset = [0, 2, 2, 3]\<rparr>,
         \<lparr>fa_queries = [40], fa_indices = [0, 1], fa_offset = [0, 2]\<rparr>]
        0 (\<lambda>_ _. 99) (\<lambda>_ _. 77)
       = Inr \<lparr>fwd_queries = [10, 40], fwd_ids = [0, 0], fwd_ranks = [0, 1]\<rparr>
   \<and> forwardQueries [\<lparr>fa_queries = [] :: nat list, fa_indices = [], fa_offset = [0]\<rparr>]
        0 (\<lambda>_ _. 99) (\<lambda>_ _. 77)
       = Inr \<lparr>fwd_queries = [], fwd_ids = [], fwd_ranks = []\<rparr>"
proof -
  let ?comm = "[\<lparr>fa_queries = [10, 20, 30 :: nat], fa_indices = [1, 0, 1], fa_offset = [0, 2, 2, 3]\<rparr>,
        \<lparr>fa_queries = [40], fa_indices = [0, 1], fa_offset = [0, 2]\<rparr>]"
  have a: "(0::nat) < length ?comm"
    by simp
  have b: "list_all (forward_ok 2) ?comm"
    by code_simp
  have b': "list_all (forward_ok (length ?comm)) ?comm"
    by code_simp
  have c: "forward_exports (\<lambda>_. 77) (?comm ! 0) = Inr [10, 10, 30]"
    by code_simp
  have d: "forward_export_ids (\<lambda>_. 99) (?comm ! 0) = Inr [0, 0, 2]"
    by code_simp
  have e: "forwardQueries ?comm 0 (\<lambda>_ _. 99) (\<lambda>_ _. 77)
       = Inr \<lparr>fwd_queries = [10, 40], fwd_ids = [0, 0], fwd_ranks = [0, 1]\<rparr>"
    by code_simp
  have f: "forwardQueries [\<lparr>fa_queries = [] :: nat list, fa_indices = [], fa_offset = [0]\<rparr>]
        0 (\<lambda>_ _. 99) (\<lambda>_ _. 77)
       = Inr \<lparr>fwd_queries = [], fwd_ids = [], fwd_ranks = []\<rparr>"
    by code_simp
  from forwardQueries_exports_aligned [OF a b', of "\<lambda>_ _. 99" "\<lambda>_ _. 77"] a b c d e f
  show ?thesis
    by simp
qed

section \<open>communicateResultsBack: what is sent and what is received\<close>

lemma batch_prefix:
  assumes "csr offset n" and "m \<le> n"
  shows "length (concat (map (\<lambda>q. replicate (nat (offset ! Suc q - offset ! q)) (ranks ! q)) [0..<m]))
           = nat (offset ! m)
       \<and> (\<forall>q<m. \<forall>i. offset ! q \<le> int i \<and> int i < offset ! Suc q \<longrightarrow>
             concat (map (\<lambda>q. replicate (nat (offset ! Suc q - offset ! q)) (ranks ! q)) [0..<m]) ! i
             = ranks ! q)"
  using assms(2)
proof (induction m)
  case 0
  with assms(1) show ?case by (simp add: csr_def)
next
  case (Suc m)
  let ?g = "\<lambda>m. concat (map (\<lambda>q. replicate (nat (offset ! Suc q - offset ! q)) (ranks ! q)) [0..<m])"
  from Suc have len: "length (?g m) = nat (offset ! m)"
    and nth: "\<And>q i. q < m \<Longrightarrow> offset ! q \<le> int i \<and> int i < offset ! Suc q \<Longrightarrow> ?g m ! i = ranks ! q"
    by simp_all
  have mono: "offset ! m \<le> offset ! Suc m" and nn: "0 \<le> offset ! m"
    using csr_nth_mono [OF assms(1), of m "Suc m"] csr_nonneg [OF assms(1), of m] Suc.prems by simp_all
  have g: "?g (Suc m) = ?g m @ replicate (nat (offset ! Suc m - offset ! m)) (ranks ! m)"
    by simp
  have "length (?g (Suc m)) = nat (offset ! Suc m)"
    using len mono nn by (simp del: upt_Suc add: g)
  moreover have "?g (Suc m) ! i = ranks ! q"
    if q: "q < Suc m" and i: "offset ! q \<le> int i \<and> int i < offset ! Suc q" for q i
  proof (cases "q = m")
    case True
    with i nn have "\<not> i < length (?g m)" "i - length (?g m) < nat (offset ! Suc m - offset ! m)"
      unfolding len by auto
    with True show ?thesis
      unfolding g by (simp add: nth_append)
  next
    case False
    with q have qm: "q < m" by simp
    then have "offset ! Suc q \<le> offset ! m"
      using csr_nth_mono [OF assms(1), of "Suc q" m] Suc.prems by simp
    with i nn have "i < length (?g m)"
      unfolding len by auto
    with nth [OF qm i] show ?thesis
      unfolding g by (simp add: nth_append)
  qed
  ultimately show ?case by blast
qed

lemma batch_dests_length:
  "csr offset (length ranks) \<Longrightarrow> length (batch_dests ranks offset) = nat (last offset)"
  using batch_prefix [of offset "length ranks" "length ranks" ranks]
  by (simp add: batch_dests_def csr_last)

lemma batch_dests_nth:
  "csr offset (length ranks) \<Longrightarrow> q < length ranks \<Longrightarrow>
   offset ! q \<le> int i \<Longrightarrow> int i < offset ! Suc q \<Longrightarrow> batch_dests ranks offset ! i = ranks ! q"
  using batch_prefix [of offset "length ranks" "length ranks" ranks]
  by (simp add: batch_dests_def)

lemma batch_dests_set: "set (batch_dests ranks offset) \<subseteq> set ranks"
  by (auto simp: batch_dests_def)

lemma batched_destinations_ok:
  "csr offset (length ranks) \<Longrightarrow> batched_destinations ranks offset = Inr (batch_dests ranks offset)"
  by (simp add: batched_destinations_def batch_dests_def csr_def)


lemma back_ok_offset:
  assumes "back_ok n_procs args"
  shows "csr (ba_offset args) (length (ba_ranks args))"
    and "lastElement (ba_offset args) = Inr (int (length (ba_out args)))"
    and "ba_offset args ! length (ba_ranks args) = int (length (ba_out args))"
    and "int (length (ba_offset args)) - 1 = int (length (ba_ranks args))"
    and "length (batch_dests (ba_ranks args) (ba_offset args)) = length (ba_out args)"
proof -
  show c: "csr (ba_offset args) (length (ba_ranks args))"
    using assms by (simp add: back_ok_def)
  then have "ba_offset args \<noteq> []"
    by (auto simp: csr_def)
  then show "lastElement (ba_offset args) = Inr (int (length (ba_out args)))"
    using assms by (simp add: lastElement_def back_ok_def)
  show "ba_offset args ! length (ba_ranks args) = int (length (ba_out args))"
    using assms csr_last [OF c] by (simp add: back_ok_def)
  show "int (length (ba_offset args)) - 1 = int (length (ba_ranks args))"
    using c by (simp add: csr_def)
  show "length (batch_dests (ba_ranks args) (ba_offset args)) = length (ba_out args)"
    using batch_dests_length [OF c] assms by (simp add: back_ok_def)
qed

lemma createFromSends_batched_ok:
  assumes "list_all (back_ok (length comm)) comm"
  shows "createFromSends_batched r (map (\<lambda>a. (ba_ranks a, ba_offset a)) comm)
     = Inr \<lparr>dist_rank = r,
            dist_destinations = map (\<lambda>a. batch_dests (ba_ranks a) (ba_offset a)) comm\<rparr>"
proof -
  have "collect (map (\<lambda>(ranks, offset). batched_destinations ranks offset)
            (map (\<lambda>a. (ba_ranks a, ba_offset a)) comm))
      = Inr (map (\<lambda>(ranks, offset). batch_dests ranks offset) (map (\<lambda>a. (ba_ranks a, ba_offset a)) comm))"
    using assms
    by (intro collect_map) (auto simp: list_all_iff back_ok_def batched_destinations_ok)
  moreover have "list_all (list_all (\<lambda>d. 0 \<le> d \<and> d < int (length comm)))
      (map (\<lambda>a. batch_dests (ba_ranks a) (ba_offset a)) comm)"
    using assms batch_dests_set by (fastforce simp: list_all_iff back_ok_def)
  ultimately show ?thesis
    by (simp add: createFromSends_batched_def createFromSends_def comp_def)
qed

lemma back_export_ranks_ok:
  assumes "back_ok n_procs args"
  shows "back_export_ranks memory args r = Inr (replicate (length (ba_out args)) (int r))"
  using back_ok_offset(2) [OF assms]
  by (simp add: back_export_ranks_def deep_copy_value_def map_replicate_const)

lemma back_export_ids_ok:
  assumes "back_ok n_procs args"
  shows "\<exists>export_ids. back_export_ids memory args = Inr export_ids
     \<and> length export_ids = length (ba_out args)
     \<and> (\<forall>q < length (ba_ranks args). \<forall>i.
           ba_offset args ! q \<le> int i \<and> int i < ba_offset args ! Suc q \<longrightarrow>
           export_ids ! i = ba_ids args ! q)"
proof -
  note o = back_ok_offset [OF assms]
  have ids: "length (ba_ids args) = length (ba_ranks args)"
    using assms by (simp add: back_ok_def)
  have "\<exists>b'. fill_buffer (int (length (ba_ranks args))) (ba_offset args)
          (\<lambda>q. at (ba_ids args) q) (map memory [0..<length (ba_out args)]) = Inr b'
        \<and> length b' = length (map memory [0..<length (ba_out args)])
        \<and> (\<forall>q < length (ba_ranks args). \<forall>i.
             ba_offset args ! q \<le> int i \<and> int i < ba_offset args ! Suc q \<longrightarrow>
             b' ! i = ba_ids args ! q)"
    using o(1) by (rule fill_buffer_correct) (simp_all add: o(3) ids)
  then show ?thesis
    by (simp add: back_export_ids_def Let_def o(2) o(4))
qed

lemma communicateResultsBack_step:
  assumes r: "comm_rank < length comm"
    and ok: "list_all (back_ok (length comm)) comm"
    and eids: "\<And>s. s < length comm \<Longrightarrow>
       back_export_ids (int_memory s) (comm ! s) = Inr (eids s)
       \<and> length (eids s) = length (ba_out (comm ! s))"
    and d: "d = \<lparr>dist_rank = comm_rank,
                 dist_destinations = map (\<lambda>a. batch_dests (ba_ranks a) (ba_offset a)) comm\<rparr>"
  shows "communicateResultsBack comm comm_rank int_memory out_memory distance_memory
     = ebind (case ba_distances (comm ! comm_rank) of
               None \<Rightarrow> Inr None
             | Some distances \<Rightarrow>
                 ebind (sendAcrossNetwork d
                          (group_views (length comm) (\<lambda>s. back_export_distances (comm ! s)))
                          (View1 distances)
                          (View1 (map (distance_memory comm_rank) [0..<getTotalReceiveLength d])))
                   (\<lambda>import_distances. Inr (Some (elems import_distances))))
         (\<lambda>distances. Inr (received comm comm_rank eids d distances))"
proof -
  have okr: "back_ok (length comm) (comm ! s)" if "s < length comm" for s
    using ok that by (simp add: list_all_length)
  note o = back_ok_offset [OF okr]
  have dl: "length (dist_destinations d) = length comm" "dist_rank d = comm_rank"
    by (simp_all add: d)
  have dn: "length (dist_destinations d ! s) = length (ba_out (comm ! s))" if "s < length comm" for s
    using that o(5) [OF that] by (simp add: d)
  have s1: "sendAcrossNetwork d
      (group_views (length comm) (\<lambda>s. back_export_ranks (int_memory s) (comm ! s) s))
      (View1 (replicate (length (ba_out (comm ! comm_rank))) (int comm_rank)))
      (View1 (map (int_memory comm_rank) [0..<getTotalReceiveLength d]))
    = Inr (View1 (map (\<lambda>(s, i). replicate (length (ba_out (comm ! s))) (int s) ! i) (arrivals d)))"
    using sendAcrossNetwork_rank1 [of d "\<lambda>s. back_export_ranks (int_memory s) (comm ! s) s"
        "\<lambda>s. replicate (length (ba_out (comm ! s))) (int s)"
        "map (int_memory comm_rank) [0..<getTotalReceiveLength d]"]
      r back_export_ranks_ok [OF okr]
    by (simp add: dl dn)
  have s2: "sendAcrossNetwork d
      (group_views (length comm) (\<lambda>s. back_export_ids (int_memory s) (comm ! s)))
      (View1 (eids comm_rank))
      (View1 (map (int_memory comm_rank) [0..<getTotalReceiveLength d]))
    = Inr (View1 (map (\<lambda>(s, i). eids s ! i) (arrivals d)))"
    using sendAcrossNetwork_rank1 [of d "\<lambda>s. back_export_ids (int_memory s) (comm ! s)" eids
        "map (int_memory comm_rank) [0..<getTotalReceiveLength d]"]
      r eids
    by (simp add: dl dn)
  have s3: "sendAcrossNetwork d
      (group_views (length comm) (\<lambda>s. Inr (ba_out (comm ! s))))
      (View1 (ba_out (comm ! comm_rank)))
      (View1 (map (out_memory comm_rank) [0..<getTotalReceiveLength d]))
    = Inr (View1 (map (\<lambda>(s, i). ba_out (comm ! s) ! i) (arrivals d)))"
    using sendAcrossNetwork_rank1 [of d "\<lambda>s. Inr (ba_out (comm ! s))" "\<lambda>s. ba_out (comm ! s)"
        "map (out_memory comm_rank) [0..<getTotalReceiveLength d]"]
      r
    by (simp add: dl dn)
  have c: "createFromSends_batched comm_rank (map (\<lambda>a. (ba_ranks a, ba_offset a)) comm) = Inr d"
    using createFromSends_batched_ok [OF ok] by (simp add: d)
  show ?thesis
    using o(2) [OF r] back_export_ranks_ok [OF okr [OF r]] eids [OF r]
    by (simp add: communicateResultsBack_def Let_def c s1 s2 s3 received_def split: option.splits)
qed

lemma communicateResultsBack_without_distances:
  assumes "comm_rank < length comm"
    and "list_all (back_ok (length comm)) comm"
    and "\<And>s. s < length comm \<Longrightarrow>
       back_export_ids (int_memory s) (comm ! s) = Inr (eids s)
       \<and> length (eids s) = length (ba_out (comm ! s))"
    and "d = \<lparr>dist_rank = comm_rank,
                 dist_destinations = map (\<lambda>a. batch_dests (ba_ranks a) (ba_offset a)) comm\<rparr>"
    and "ba_distances (comm ! comm_rank) = None"
  shows "communicateResultsBack comm comm_rank int_memory out_memory distance_memory
     = Inr (received comm comm_rank eids d None)"
  using assms(5) by (simp add: communicateResultsBack_step [OF assms(1-4)])

lemma communicateResultsBack_with_distances:
  assumes r: "comm_rank < length comm"
    and ok: "list_all (back_ok (length comm)) comm"
    and eids: "\<And>s. s < length comm \<Longrightarrow>
       back_export_ids (int_memory s) (comm ! s) = Inr (eids s)
       \<and> length (eids s) = length (ba_out (comm ! s))"
    and d: "d = \<lparr>dist_rank = comm_rank,
                 dist_destinations = map (\<lambda>a. batch_dests (ba_ranks a) (ba_offset a)) comm\<rparr>"
    and all: "\<And>s. s < length comm \<Longrightarrow> ba_distances (comm ! s) = Some (ds s)
                \<and> length (ds s) = length (ba_out (comm ! s))"
  shows "communicateResultsBack comm comm_rank int_memory out_memory distance_memory
     = Inr (received comm comm_rank eids d (Some (map (\<lambda>(s, i). ds s ! i) (arrivals d))))"
proof -
  have okr: "back_ok (length comm) (comm ! s)" if "s < length comm" for s
    using ok that by (simp add: list_all_length)
  have dl: "length (dist_destinations d) = length comm" "dist_rank d = comm_rank"
    by (simp_all add: d)
  have dn: "length (dist_destinations d ! s) = length (ba_out (comm ! s))" if "s < length comm" for s
    using that back_ok_offset(5) [OF okr [OF that]] by (simp add: d)
  have s4: "sendAcrossNetwork d
        (group_views (length comm) (\<lambda>s. back_export_distances (comm ! s)))
        (View1 (ds comm_rank))
        (View1 (map (distance_memory comm_rank) [0..<getTotalReceiveLength d]))
      = Inr (View1 (map (\<lambda>(s, i). ds s ! i) (arrivals d)))"
    using sendAcrossNetwork_rank1 [of d "\<lambda>s. back_export_distances (comm ! s)" ds
          "map (distance_memory comm_rank) [0..<getTotalReceiveLength d]"]
        r all
    by (simp add: dl dn back_export_distances_def)
  show ?thesis
    using all [OF r] by (simp add: communicateResultsBack_step [OF r ok eids d] s4)
qed

lemma communicateResultsBack_fields:
  assumes "comm_rank < length comm"
    and "list_all (back_ok (length comm)) comm"
    and "\<And>s. s < length comm \<Longrightarrow>
       back_export_ids (int_memory s) (comm ! s) = Inr (eids s)
       \<and> length (eids s) = length (ba_out (comm ! s))"
    and "d = \<lparr>dist_rank = comm_rank,
                 dist_destinations = map (\<lambda>a. batch_dests (ba_ranks a) (ba_offset a)) comm\<rparr>"
    and "communicateResultsBack comm comm_rank int_memory out_memory distance_memory = Inr res"
  shows "\<exists>distances. res = received comm comm_rank eids d distances"
proof -
  have "communicateResultsBack comm comm_rank int_memory out_memory distance_memory
     = ebind (case ba_distances (comm ! comm_rank) of
               None \<Rightarrow> Inr None
             | Some distances \<Rightarrow>
                 ebind (sendAcrossNetwork d
                          (group_views (length comm) (\<lambda>s. back_export_distances (comm ! s)))
                          (View1 distances)
                          (View1 (map (distance_memory comm_rank) [0..<getTotalReceiveLength d])))
                   (\<lambda>import_distances. Inr (Some (elems import_distances))))
         (\<lambda>distances. Inr (received comm comm_rank eids d distances))"
    using assms(1-4) by (rule communicateResultsBack_step)
  with assms(5) have "ebind (case ba_distances (comm ! comm_rank) of
               None \<Rightarrow> Inr None
             | Some distances \<Rightarrow>
                 ebind (sendAcrossNetwork d
                          (group_views (length comm) (\<lambda>s. back_export_distances (comm ! s)))
                          (View1 distances)
                          (View1 (map (distance_memory comm_rank) [0..<getTotalReceiveLength d])))
                   (\<lambda>import_distances. Inr (Some (elems import_distances))))
         (\<lambda>distances. Inr (received comm comm_rank eids d distances)) = Inr res"
    by simp
  then obtain distances where "Inr (received comm comm_rank eids d distances) = Inr res"
    unfolding ebind_eq_Inr by blast
  then show ?thesis
    by auto
qed


lemma back_export_ids_all:
  assumes "list_all (back_ok (length comm)) comm"
  obtains eids where "\<And>s. s < length comm \<Longrightarrow>
      back_export_ids (int_memory s) (comm ! s) = Inr (eids s)
      \<and> length (eids s) = length (ba_out (comm ! s))
      \<and> (\<forall>q < length (ba_ranks (comm ! s)). \<forall>i.
           ba_offset (comm ! s) ! q \<le> int i \<and> int i < ba_offset (comm ! s) ! Suc q \<longrightarrow>
           eids s ! i = ba_ids (comm ! s) ! q)"
proof -
  have okr: "back_ok (length comm) (comm ! s)" if "s < length comm" for s
    using assms that by (simp add: list_all_length)
  have "\<forall>s. \<exists>e. s < length comm \<longrightarrow>
      back_export_ids (int_memory s) (comm ! s) = Inr e
      \<and> length e = length (ba_out (comm ! s))
      \<and> (\<forall>q < length (ba_ranks (comm ! s)). \<forall>i.
           ba_offset (comm ! s) ! q \<le> int i \<and> int i < ba_offset (comm ! s) ! Suc q \<longrightarrow>
           e ! i = ba_ids (comm ! s) ! q)"
    using back_export_ids_ok [OF okr] by blast
  from choice [OF this] obtain eids where "\<forall>s. s < length comm \<longrightarrow>
      back_export_ids (int_memory s) (comm ! s) = Inr (eids s)
      \<and> length (eids s) = length (ba_out (comm ! s))
      \<and> (\<forall>q < length (ba_ranks (comm ! s)). \<forall>i.
           ba_offset (comm ! s) ! q \<le> int i \<and> int i < ba_offset (comm ! s) ! Suc q \<longrightarrow>
           eids s ! i = ba_ids (comm ! s) ! q)"
    by blast
  with that show thesis
    by blast
qed

lemma arrival_origin:
  assumes ok: "list_all (back_ok (length comm)) comm"
    and d: "d = \<lparr>dist_rank = comm_rank,
                 dist_destinations = map (\<lambda>a. batch_dests (ba_ranks a) (ba_offset a)) comm\<rparr>"
    and j: "j < length (arrivals d)"
  obtains s i q where "arrivals d ! j = (s, i)" "s < length comm" "i < length (ba_out (comm ! s))"
    "q < length (ba_ranks (comm ! s))"
    "ba_offset (comm ! s) ! q \<le> int i \<and> int i < ba_offset (comm ! s) ! Suc q"
    "ba_ranks (comm ! s) ! q = int comm_rank"
proof -
  obtain s i where si: "arrivals d ! j = (s, i)"
    by (cases "arrivals d ! j")
  from j have "arrivals d ! j \<in> set (arrivals d)"
    by simp
  with si have m: "s < length comm" "i < length (batch_dests (ba_ranks (comm ! s)) (ba_offset (comm ! s)))"
      "batch_dests (ba_ranks (comm ! s)) (ba_offset (comm ! s)) ! i = int comm_rank"
    by (auto simp: arrivals_member d)
  have okr: "back_ok (length comm) (comm ! s)"
    using ok m(1) by (simp add: list_all_length)
  note o = back_ok_offset [OF okr]
  from m(2) have i: "i < length (ba_out (comm ! s))"
    by (simp add: o(5))
  from csr_owner [OF o(1), of i] i o(3)
  obtain q where q: "q < length (ba_ranks (comm ! s))"
      "ba_offset (comm ! s) ! q \<le> int i \<and> int i < ba_offset (comm ! s) ! Suc q"
    by auto
  from batch_dests_nth [OF o(1) q(1)] q(2) m(3) have "ba_ranks (comm ! s) ! q = int comm_rank"
    by simp
  with si m(1) i q that show thesis
    by blast
qed

lemma same_but_distances:
  assumes "a\<lparr>ba_distances := None\<rparr> = b\<lparr>ba_distances := None\<rparr>"
  shows "ba_out a = ba_out b" "ba_offset a = ba_offset b" "ba_ranks a = ba_ranks b"
    "ba_ids a = ba_ids b" "back_ok n a = back_ok n b"
    "back_export_ids memory a = back_export_ids memory b"
    "a\<lparr>ba_out := x, ba_ranks := y, ba_ids := z, ba_distances := w\<rparr>
       = b\<lparr>ba_out := x, ba_ranks := y, ba_ids := z, ba_distances := w\<rparr>"
  using assms
  by (cases a; cases b; simp add: back_ok_def back_export_ids_def)+


lemma distances_all:
  assumes ok: "list_all distances_ok comm"
    and same: "list_all (\<lambda>a. (ba_distances a = None) = (ba_distances (comm ! comm_rank) = None)) comm"
    and some: "ba_distances (comm ! comm_rank) = Some distances"
    and s: "s < length comm"
  shows "ba_distances (comm ! s) = Some (the (ba_distances (comm ! s)))
     \<and> length (the (ba_distances (comm ! s))) = length (ba_out (comm ! s))"
proof -
  from same s some have "ba_distances (comm ! s) \<noteq> None"
    by (simp add: list_all_length)
  moreover from ok s have "distances_ok (comm ! s)"
    by (simp add: list_all_length)
  ultimately show ?thesis
    by (auto simp: distances_ok_def)
qed

text \<open>
  Claim C6. In a communicator whose processes all pass well-formed arguments and agree on
  whether distances are given, the export buffer of ids holds \<open>ids(q)\<close> at every
  position \<open>i\<close> of \<open>[offset(q), offset(q+1))\<close>, for every forwarded query \<open>q\<close>. The call
  returns; afterwards \<open>out\<close>, \<open>ranks\<close>, \<open>ids\<close> (and the distances, when given) are the
  received buffers, each of the import length of the plan, and \<open>offset\<close> is as before. The
  item received at position \<open>j\<close> is the result at the export position \<open>i\<close> of its sender
  \<open>s\<close>, with the id of the forwarded query of \<open>s\<close> whose range holds \<open>i\<close>, which \<open>s\<close>
  had received from this process.
\<close>

theorem communicateResultsBack_ids_and_rebinding:
  assumes r: "comm_rank < length comm"
    and ok: "list_all (back_ok (length comm)) comm"
    and dok: "list_all distances_ok comm"
    and same: "list_all (\<lambda>a. (ba_distances a = None) = (ba_distances (comm ! comm_rank) = None)) comm"
  shows "\<exists>export_ids distributor res.
      back_export_ids (int_memory comm_rank) (comm ! comm_rank) = Inr export_ids
    \<and> int (length export_ids) = last (ba_offset (comm ! comm_rank))
    \<and> (\<forall>q i. int q < int (length (ba_offset (comm ! comm_rank))) - 1
          \<and> ba_offset (comm ! comm_rank) ! q \<le> int i \<and> int i < ba_offset (comm ! comm_rank) ! Suc q \<longrightarrow>
          export_ids ! i = ba_ids (comm ! comm_rank) ! q)
    \<and> createFromSends_batched comm_rank (map (\<lambda>a. (ba_ranks a, ba_offset a)) comm) = Inr distributor
    \<and> communicateResultsBack comm comm_rank int_memory out_memory distance_memory = Inr res
    \<and> ba_offset res = ba_offset (comm ! comm_rank)
    \<and> length (ba_out res) = getTotalReceiveLength distributor
    \<and> length (ba_ranks res) = getTotalReceiveLength distributor
    \<and> length (ba_ids res) = getTotalReceiveLength distributor
    \<and> (case ba_distances (comm ! comm_rank) of
          None \<Rightarrow> ba_distances res = None
        | Some distances \<Rightarrow> (\<exists>distances'. ba_distances res = Some distances'
            \<and> length distances' = getTotalReceiveLength distributor))
    \<and> (\<forall>j < getTotalReceiveLength distributor. \<exists>s i q.
          arrivals distributor ! j = (s, i) \<and> s < length comm
          \<and> q < length (ba_ranks (comm ! s))
          \<and> ba_offset (comm ! s) ! q \<le> int i \<and> int i < ba_offset (comm ! s) ! Suc q
          \<and> ba_ranks (comm ! s) ! q = int comm_rank
          \<and> ba_out res ! j = ba_out (comm ! s) ! i
          \<and> ba_ids res ! j = ba_ids (comm ! s) ! q
          \<and> (\<forall>distances'. ba_distances res = Some distances' \<longrightarrow>
                (\<exists>ds. ba_distances (comm ! s) = Some ds \<and> distances' ! j = ds ! i)))"
proof -
  define d where "d = \<lparr>dist_rank = comm_rank,
      dist_destinations = map (\<lambda>a. batch_dests (ba_ranks a) (ba_offset a)) comm\<rparr>"
  define ds where "ds = (\<lambda>s. the (ba_distances (comm ! s)))"
  define dist' where "dist' = (case ba_distances (comm ! comm_rank) of None \<Rightarrow> None
      | Some distances \<Rightarrow> Some (map (\<lambda>(s, i). ds s ! i) (arrivals d)))"
  obtain eids where eids: "\<And>s. s < length comm \<Longrightarrow>
      back_export_ids (int_memory s) (comm ! s) = Inr (eids s)
      \<and> length (eids s) = length (ba_out (comm ! s))
      \<and> (\<forall>q < length (ba_ranks (comm ! s)). \<forall>i.
           ba_offset (comm ! s) ! q \<le> int i \<and> int i < ba_offset (comm ! s) ! Suc q \<longrightarrow>
           eids s ! i = ba_ids (comm ! s) ! q)"
    using back_export_ids_all [OF ok] by blast
  then have eids': "\<And>s. s < length comm \<Longrightarrow>
      back_export_ids (int_memory s) (comm ! s) = Inr (eids s)
      \<and> length (eids s) = length (ba_out (comm ! s))"
    by blast
  let ?args = "comm ! comm_rank"
  let ?res = "received comm comm_rank eids d dist'"
  have okr: "back_ok (length comm) ?args"
    using ok r by (simp add: list_all_length)
  note o = back_ok_offset [OF okr]
  have run: "communicateResultsBack comm comm_rank int_memory out_memory distance_memory = Inr ?res"
  proof (cases "ba_distances ?args")
    case None
    then show ?thesis
      using communicateResultsBack_without_distances [OF r ok eids' d_def]
      by (simp add: dist'_def)
  next
    case (Some distances)
    have "\<And>s. s < length comm \<Longrightarrow> ba_distances (comm ! s) = Some (ds s)
                \<and> length (ds s) = length (ba_out (comm ! s))"
      unfolding ds_def using dok same Some by (rule distances_all)
    from communicateResultsBack_with_distances [OF r ok eids' d_def this] Some
    show ?thesis
      by (simp add: dist'_def)
  qed
  have 1: "back_export_ids (int_memory comm_rank) ?args = Inr (eids comm_rank)"
    using eids [OF r] by simp
  have 2: "int (length (eids comm_rank)) = last (ba_offset ?args)"
    using eids [OF r] okr by (simp add: back_ok_def)
  have 3: "\<forall>q i. int q < int (length (ba_offset ?args)) - 1
          \<and> ba_offset ?args ! q \<le> int i \<and> int i < ba_offset ?args ! Suc q \<longrightarrow>
          eids comm_rank ! i = ba_ids ?args ! q"
    using eids [OF r] o(4) by simp
  have 4: "createFromSends_batched comm_rank (map (\<lambda>a. (ba_ranks a, ba_offset a)) comm) = Inr d"
    using createFromSends_batched_ok [OF ok] by (simp add: d_def)
  have 6: "ba_offset ?res = ba_offset ?args"
    and 7: "length (ba_out ?res) = getTotalReceiveLength d"
    and 8: "length (ba_ranks ?res) = getTotalReceiveLength d"
    and 9: "length (ba_ids ?res) = getTotalReceiveLength d"
    by (simp_all add: received_def getTotalReceiveLength_def)
  have 10: "case ba_distances ?args of
          None \<Rightarrow> ba_distances ?res = None
        | Some distances \<Rightarrow> (\<exists>distances'. ba_distances ?res = Some distances'
            \<and> length distances' = getTotalReceiveLength d)"
    by (simp add: received_def dist'_def getTotalReceiveLength_def split: option.splits)
  have 11: "\<forall>j < getTotalReceiveLength d. \<exists>s i q.
          arrivals d ! j = (s, i) \<and> s < length comm
          \<and> q < length (ba_ranks (comm ! s))
          \<and> ba_offset (comm ! s) ! q \<le> int i \<and> int i < ba_offset (comm ! s) ! Suc q
          \<and> ba_ranks (comm ! s) ! q = int comm_rank
          \<and> ba_out ?res ! j = ba_out (comm ! s) ! i
          \<and> ba_ids ?res ! j = ba_ids (comm ! s) ! q
          \<and> (\<forall>distances'. ba_distances ?res = Some distances' \<longrightarrow>
                (\<exists>ds. ba_distances (comm ! s) = Some ds \<and> distances' ! j = ds ! i))"
  proof (intro allI impI)
    fix j
    assume "j < getTotalReceiveLength d"
    then have j: "j < length (arrivals d)"
      by (simp add: getTotalReceiveLength_def)
    from arrival_origin [OF ok d_def j] obtain s i q where a: "arrivals d ! j = (s, i)"
      "s < length comm" "i < length (ba_out (comm ! s))" "q < length (ba_ranks (comm ! s))"
      "ba_offset (comm ! s) ! q \<le> int i \<and> int i < ba_offset (comm ! s) ! Suc q"
      "ba_ranks (comm ! s) ! q = int comm_rank"
      by blast
    have x: "ba_out ?res ! j = ba_out (comm ! s) ! i"
      using j a(1) by (simp add: received_def)
    have y: "ba_ids ?res ! j = ba_ids (comm ! s) ! q"
      using j a(1) eids [OF a(2)] a(4,5) by (simp add: received_def)
    have z: "\<exists>ds. ba_distances (comm ! s) = Some ds \<and> distances' ! j = ds ! i"
      if "ba_distances ?res = Some distances'" for distances'
    proof -
      from that obtain distances where some: "ba_distances ?args = Some distances"
        and eq: "distances' = map (\<lambda>(s, i). ds s ! i) (arrivals d)"
        by (auto simp: received_def dist'_def split: option.splits)
      from distances_all [OF dok same some a(2)] have "ba_distances (comm ! s) = Some (ds s)"
        by (simp add: ds_def)
      moreover have "distances' ! j = ds s ! i"
        using j a(1) by (simp add: eq)
      ultimately show ?thesis
        by blast
    qed
    from a x y z show "\<exists>s i q.
          arrivals d ! j = (s, i) \<and> s < length comm
          \<and> q < length (ba_ranks (comm ! s))
          \<and> ba_offset (comm ! s) ! q \<le> int i \<and> int i < ba_offset (comm ! s) ! Suc q
          \<and> ba_ranks (comm ! s) ! q = int comm_rank
          \<and> ba_out ?res ! j = ba_out (comm ! s) ! i
          \<and> ba_ids ?res ! j = ba_ids (comm ! s) ! q
          \<and> (\<forall>distances'. ba_distances ?res = Some distances' \<longrightarrow>
                (\<exists>ds. ba_distances (comm ! s) = Some ds \<and> distances' ! j = ds ! i))"
      by blast
  qed
  from 1 2 3 4 run 6 7 8 9 10 11 show ?thesis
    by (intro exI [of _ "eids comm_rank"] exI [of _ d] exI [of _ ?res] conjI)
qed



theorem communicateResultsBack_ids_and_rebinding_witness:
  "(0::nat) < length [\<lparr>ba_out = [100, 101, 102 :: nat], ba_offset = [0, 2, 3], ba_ranks = [1, 0],
            ba_ids = [5, 6], ba_distances = Some [10, 11, 12 :: nat]\<rparr>,
         \<lparr>ba_out = [200, 201], ba_offset = [0, 0, 1, 2], ba_ranks = [0, 0, 1],
            ba_ids = [7, 8, 9], ba_distances = Some [20, 21]\<rparr>]
   \<and> list_all (back_ok 2) [\<lparr>ba_out = [100, 101, 102 :: nat], ba_offset = [0, 2, 3], ba_ranks = [1, 0],
            ba_ids = [5, 6], ba_distances = Some [10, 11, 12 :: nat]\<rparr>,
         \<lparr>ba_out = [200, 201], ba_offset = [0, 0, 1, 2], ba_ranks = [0, 0, 1],
            ba_ids = [7, 8, 9], ba_distances = Some [20, 21]\<rparr>]
   \<and> list_all distances_ok [\<lparr>ba_out = [100, 101, 102 :: nat], ba_offset = [0, 2, 3], ba_ranks = [1, 0],
            ba_ids = [5, 6], ba_distances = Some [10, 11, 12 :: nat]\<rparr>,
         \<lparr>ba_out = [200, 201], ba_offset = [0, 0, 1, 2], ba_ranks = [0, 0, 1],
            ba_ids = [7, 8, 9], ba_distances = Some [20, 21]\<rparr>]
   \<and> back_export_ids (\<lambda>_. 99) ([\<lparr>ba_out = [100, 101, 102 :: nat], ba_offset = [0, 2, 3], ba_ranks = [1, 0],
            ba_ids = [5, 6], ba_distances = Some [10, 11, 12 :: nat]\<rparr>,
         \<lparr>ba_out = [200, 201], ba_offset = [0, 0, 1, 2], ba_ranks = [0, 0, 1],
            ba_ids = [7, 8, 9], ba_distances = Some [20, 21]\<rparr>] ! 0) = Inr [5, 5, 6]
   \<and> communicateResultsBack [\<lparr>ba_out = [100, 101, 102 :: nat], ba_offset = [0, 2, 3], ba_ranks = [1, 0],
            ba_ids = [5, 6], ba_distances = Some [10, 11, 12 :: nat]\<rparr>,
         \<lparr>ba_out = [200, 201], ba_offset = [0, 0, 1, 2], ba_ranks = [0, 0, 1],
            ba_ids = [7, 8, 9], ba_distances = Some [20, 21]\<rparr>] 0 (\<lambda>_ _. 99) (\<lambda>_ _. 77) (\<lambda>_ _. 55)
       = Inr \<lparr>ba_out = [102, 200], ba_offset = [0, 2, 3], ba_ranks = [0, 1], ba_ids = [6, 8],
              ba_distances = Some [12, 20]\<rparr>"
proof -
  let ?comm = "[\<lparr>ba_out = [100, 101, 102 :: nat], ba_offset = [0, 2, 3], ba_ranks = [1, 0],
            ba_ids = [5, 6], ba_distances = Some [10, 11, 12 :: nat]\<rparr>,
         \<lparr>ba_out = [200, 201], ba_offset = [0, 0, 1, 2], ba_ranks = [0, 0, 1],
            ba_ids = [7, 8, 9], ba_distances = Some [20, 21]\<rparr>]"
  have a: "(0::nat) < length ?comm"
    by simp
  have b: "list_all (back_ok (length ?comm)) ?comm" and b': "list_all (back_ok 2) ?comm"
    by code_simp+
  have c: "list_all distances_ok ?comm"
    by code_simp
  have d: "list_all (\<lambda>a. (ba_distances a = None) = (ba_distances (?comm ! 0) = None)) ?comm"
    by code_simp
  have e: "back_export_ids (\<lambda>_. 99) (?comm ! 0) = Inr [5, 5, 6]"
    by code_simp
  have f: "communicateResultsBack ?comm 0 (\<lambda>_ _. 99) (\<lambda>_ _. 77) (\<lambda>_ _. 55)
       = Inr \<lparr>ba_out = [102, 200], ba_offset = [0, 2, 3], ba_ranks = [0, 1], ba_ids = [6, 8],
              ba_distances = Some [12, 20]\<rparr>"
    by code_simp
  from communicateResultsBack_ids_and_rebinding [OF a b c d, of "\<lambda>_ _. 99" "\<lambda>_ _. 77" "\<lambda>_ _. 55"]
    a b' c e f
  show ?thesis
    by (intro conjI)
qed

text \<open>
  Claim C10. The export buffer of ranks holds the exporting process's own rank, once per
  outgoing result, whatever the input \<open>ranks\<close> view holds. After the call, the
  entry of \<open>ranks\<close> at each received position is the rank of the process that sent the
  item, and the result received there is that process's result.
\<close>

theorem communicateResultsBack_ranks_identify_producer:
  assumes r: "comm_rank < length comm"
    and ok: "list_all (back_ok (length comm)) comm"
    and dok: "list_all distances_ok comm"
    and same: "list_all (\<lambda>a. (ba_distances a = None) = (ba_distances (comm ! comm_rank) = None)) comm"
  shows "back_export_ranks (int_memory comm_rank) (comm ! comm_rank) comm_rank
       = Inr (replicate (length (ba_out (comm ! comm_rank))) (int comm_rank))
    \<and> back_export_ranks (int_memory comm_rank) ((comm ! comm_rank)\<lparr>ba_ranks := other_ranks\<rparr>) comm_rank
       = back_export_ranks (int_memory comm_rank) (comm ! comm_rank) comm_rank
    \<and> (\<exists>distributor res.
          createFromSends_batched comm_rank (map (\<lambda>a. (ba_ranks a, ba_offset a)) comm) = Inr distributor
        \<and> communicateResultsBack comm comm_rank int_memory out_memory distance_memory = Inr res
        \<and> length (ba_ranks res) = length (ba_out res)
        \<and> (\<forall>j < length (ba_ranks res). \<exists>s i.
              arrivals distributor ! j = (s, i) \<and> s < length comm
              \<and> i < length (ba_out (comm ! s))
              \<and> ba_ranks res ! j = int s
              \<and> ba_out res ! j = ba_out (comm ! s) ! i))"
proof -
  define d where "d = \<lparr>dist_rank = comm_rank,
      dist_destinations = map (\<lambda>a. batch_dests (ba_ranks a) (ba_offset a)) comm\<rparr>"
  define ds where "ds = (\<lambda>s. the (ba_distances (comm ! s)))"
  define dist' where "dist' = (case ba_distances (comm ! comm_rank) of None \<Rightarrow> None
      | Some distances \<Rightarrow> Some (map (\<lambda>(s, i). ds s ! i) (arrivals d)))"
  obtain eids where "\<And>s. s < length comm \<Longrightarrow>
      back_export_ids (int_memory s) (comm ! s) = Inr (eids s)
      \<and> length (eids s) = length (ba_out (comm ! s))
      \<and> (\<forall>q < length (ba_ranks (comm ! s)). \<forall>i.
           ba_offset (comm ! s) ! q \<le> int i \<and> int i < ba_offset (comm ! s) ! Suc q \<longrightarrow>
           eids s ! i = ba_ids (comm ! s) ! q)"
    using back_export_ids_all [OF ok] by blast
  then have eids: "\<And>s. s < length comm \<Longrightarrow>
      back_export_ids (int_memory s) (comm ! s) = Inr (eids s)
      \<and> length (eids s) = length (ba_out (comm ! s))"
    by blast
  let ?args = "comm ! comm_rank"
  let ?res = "received comm comm_rank eids d dist'"
  have okr: "back_ok (length comm) ?args"
    using ok r by (simp add: list_all_length)
  have run: "communicateResultsBack comm comm_rank int_memory out_memory distance_memory = Inr ?res"
  proof (cases "ba_distances ?args")
    case None
    then show ?thesis
      using communicateResultsBack_without_distances [OF r ok eids d_def]
      by (simp add: dist'_def)
  next
    case (Some distances)
    have "\<And>s. s < length comm \<Longrightarrow> ba_distances (comm ! s) = Some (ds s)
                \<and> length (ds s) = length (ba_out (comm ! s))"
      unfolding ds_def using dok same Some by (rule distances_all)
    from communicateResultsBack_with_distances [OF r ok eids d_def this] Some
    show ?thesis
      by (simp add: dist'_def)
  qed
  have 1: "back_export_ranks (int_memory comm_rank) ?args comm_rank
       = Inr (replicate (length (ba_out ?args)) (int comm_rank))"
    using okr by (rule back_export_ranks_ok)
  have 2: "back_export_ranks (int_memory comm_rank) (?args\<lparr>ba_ranks := other_ranks\<rparr>) comm_rank
       = back_export_ranks (int_memory comm_rank) ?args comm_rank"
    by (simp add: back_export_ranks_def)
  have 3: "createFromSends_batched comm_rank (map (\<lambda>a. (ba_ranks a, ba_offset a)) comm) = Inr d"
    using createFromSends_batched_ok [OF ok] by (simp add: d_def)
  have 4: "length (ba_ranks ?res) = length (ba_out ?res)"
    by (simp add: received_def)
  have 5: "\<forall>j < length (ba_ranks ?res). \<exists>s i.
              arrivals d ! j = (s, i) \<and> s < length comm
              \<and> i < length (ba_out (comm ! s))
              \<and> ba_ranks ?res ! j = int s
              \<and> ba_out ?res ! j = ba_out (comm ! s) ! i"
  proof (intro allI impI)
    fix j
    assume "j < length (ba_ranks ?res)"
    then have j: "j < length (arrivals d)"
      by (simp add: received_def)
    from arrival_origin [OF ok d_def j] obtain s i where a: "arrivals d ! j = (s, i)"
      "s < length comm" "i < length (ba_out (comm ! s))"
      by blast
    have "ba_ranks ?res ! j = int s" "ba_out ?res ! j = ba_out (comm ! s) ! i"
      using j a by (simp_all add: received_def)
    with a show "\<exists>s i. arrivals d ! j = (s, i) \<and> s < length comm
              \<and> i < length (ba_out (comm ! s))
              \<and> ba_ranks ?res ! j = int s
              \<and> ba_out ?res ! j = ba_out (comm ! s) ! i"
      by blast
  qed
  from 3 run 4 5 have "\<exists>distributor res.
          createFromSends_batched comm_rank (map (\<lambda>a. (ba_ranks a, ba_offset a)) comm) = Inr distributor
        \<and> communicateResultsBack comm comm_rank int_memory out_memory distance_memory = Inr res
        \<and> length (ba_ranks res) = length (ba_out res)
        \<and> (\<forall>j < length (ba_ranks res). \<exists>s i.
              arrivals distributor ! j = (s, i) \<and> s < length comm
              \<and> i < length (ba_out (comm ! s))
              \<and> ba_ranks res ! j = int s
              \<and> ba_out res ! j = ba_out (comm ! s) ! i)"
    by (intro exI [of _ d] exI [of _ ?res] conjI)
  with 1 2 show ?thesis
    by (intro conjI)
qed


theorem communicateResultsBack_ranks_identify_producer_witness:
  "(1::nat) < length [\<lparr>ba_out = [100, 101, 102 :: nat], ba_offset = [0, 2, 3], ba_ranks = [1, 0],
            ba_ids = [5, 6], ba_distances = Some [10, 11, 12 :: nat]\<rparr>,
         \<lparr>ba_out = [200, 201], ba_offset = [0, 0, 1, 2], ba_ranks = [0, 0, 1],
            ba_ids = [7, 8, 9], ba_distances = Some [20, 21]\<rparr>]
   \<and> list_all (back_ok 2) [\<lparr>ba_out = [100, 101, 102 :: nat], ba_offset = [0, 2, 3], ba_ranks = [1, 0],
            ba_ids = [5, 6], ba_distances = Some [10, 11, 12 :: nat]\<rparr>,
         \<lparr>ba_out = [200, 201], ba_offset = [0, 0, 1, 2], ba_ranks = [0, 0, 1],
            ba_ids = [7, 8, 9], ba_distances = Some [20, 21]\<rparr>]
   \<and> list_all distances_ok [\<lparr>ba_out = [100, 101, 102 :: nat], ba_offset = [0, 2, 3], ba_ranks = [1, 0],
            ba_ids = [5, 6], ba_distances = Some [10, 11, 12 :: nat]\<rparr>,
         \<lparr>ba_out = [200, 201], ba_offset = [0, 0, 1, 2], ba_ranks = [0, 0, 1],
            ba_ids = [7, 8, 9], ba_distances = Some [20, 21]\<rparr>]
   \<and> back_export_ranks (\<lambda>_. 99) ([\<lparr>ba_out = [100, 101, 102 :: nat], ba_offset = [0, 2, 3], ba_ranks = [1, 0],
            ba_ids = [5, 6], ba_distances = Some [10, 11, 12 :: nat]\<rparr>,
         \<lparr>ba_out = [200, 201], ba_offset = [0, 0, 1, 2], ba_ranks = [0, 0, 1],
            ba_ids = [7, 8, 9], ba_distances = Some [20, 21]\<rparr>] ! 1) 1 = Inr [1, 1]
   \<and> communicateResultsBack [\<lparr>ba_out = [100, 101, 102 :: nat], ba_offset = [0, 2, 3], ba_ranks = [1, 0],
            ba_ids = [5, 6], ba_distances = Some [10, 11, 12 :: nat]\<rparr>,
         \<lparr>ba_out = [200, 201], ba_offset = [0, 0, 1, 2], ba_ranks = [0, 0, 1],
            ba_ids = [7, 8, 9], ba_distances = Some [20, 21]\<rparr>] 1 (\<lambda>_ _. 99) (\<lambda>_ _. 77) (\<lambda>_ _. 55)
       = Inr \<lparr>ba_out = [100, 101, 201], ba_offset = [0, 0, 1, 2], ba_ranks = [0, 0, 1],
              ba_ids = [5, 5, 9], ba_distances = Some [10, 11, 21]\<rparr>"
proof -
  let ?comm = "[\<lparr>ba_out = [100, 101, 102 :: nat], ba_offset = [0, 2, 3], ba_ranks = [1, 0],
            ba_ids = [5, 6], ba_distances = Some [10, 11, 12 :: nat]\<rparr>,
         \<lparr>ba_out = [200, 201], ba_offset = [0, 0, 1, 2], ba_ranks = [0, 0, 1],
            ba_ids = [7, 8, 9], ba_distances = Some [20, 21]\<rparr>]"
  have a: "(1::nat) < length ?comm"
    by simp
  have b: "list_all (back_ok (length ?comm)) ?comm" and b': "list_all (back_ok 2) ?comm"
    by code_simp+
  have c: "list_all distances_ok ?comm"
    by code_simp
  have d: "list_all (\<lambda>a. (ba_distances a = None) = (ba_distances (?comm ! 1) = None)) ?comm"
    by code_simp
  have e: "back_export_ranks (\<lambda>_. 99) (?comm ! 1) 1 = Inr [1, 1]"
    by code_simp
  have f: "communicateResultsBack ?comm 1 (\<lambda>_ _. 99) (\<lambda>_ _. 77) (\<lambda>_ _. 55)
       = Inr \<lparr>ba_out = [100, 101, 201], ba_offset = [0, 0, 1, 2], ba_ranks = [0, 0, 1],
              ba_ids = [5, 5, 9], ba_distances = Some [10, 11, 21]\<rparr>"
    by code_simp
  from communicateResultsBack_ranks_identify_producer [OF a b c d, of "\<lambda>_ _. 99" "[]" "\<lambda>_ _. 77" "\<lambda>_ _. 55"]
    a b' c e f
  show ?thesis
    by (intro conjI)
qed

text \<open>
  Claim C9. A process called with a null distances pointer, in a communicator whose
  processes pass well-formed arguments, returns: the call is no failure. Its distances
  binding stays null; the result does not depend on the memory a distance buffer would
  be allocated in, nor on what the other processes pass as distances; and \<open>out\<close>,
  \<open>ranks\<close> and \<open>ids\<close> are what any run that differs only in the distances passed
  returns for them.
\<close>

theorem communicateResultsBack_null_distances:
  assumes r: "comm_rank < length comm"
    and ok: "list_all (back_ok (length comm)) comm"
    and null: "ba_distances (comm ! comm_rank) = None"
  shows "\<exists>res.
      communicateResultsBack comm comm_rank int_memory out_memory distance_memory = Inr res
    \<and> ba_distances res = None
    \<and> communicateResultsBack comm comm_rank int_memory out_memory other_distance_memory = Inr res
    \<and> (\<forall>comm'. length comm' = length comm
          \<and> (\<forall>s < length comm. (comm' ! s)\<lparr>ba_distances := None\<rparr> = (comm ! s)\<lparr>ba_distances := None\<rparr>)
          \<and> ba_distances (comm' ! comm_rank) = None \<longrightarrow>
          communicateResultsBack comm' comm_rank int_memory out_memory distance_memory = Inr res)
    \<and> (\<forall>comm' res'. length comm' = length comm
          \<and> (\<forall>s < length comm. (comm' ! s)\<lparr>ba_distances := None\<rparr> = (comm ! s)\<lparr>ba_distances := None\<rparr>)
          \<and> communicateResultsBack comm' comm_rank int_memory out_memory distance_memory = Inr res' \<longrightarrow>
          ba_out res' = ba_out res \<and> ba_ranks res' = ba_ranks res \<and> ba_ids res' = ba_ids res)"
proof -
  define d where "d = \<lparr>dist_rank = comm_rank,
      dist_destinations = map (\<lambda>a. batch_dests (ba_ranks a) (ba_offset a)) comm\<rparr>"
  obtain eids where "\<And>s. s < length comm \<Longrightarrow>
      back_export_ids (int_memory s) (comm ! s) = Inr (eids s)
      \<and> length (eids s) = length (ba_out (comm ! s))
      \<and> (\<forall>q < length (ba_ranks (comm ! s)). \<forall>i.
           ba_offset (comm ! s) ! q \<le> int i \<and> int i < ba_offset (comm ! s) ! Suc q \<longrightarrow>
           eids s ! i = ba_ids (comm ! s) ! q)"
    using back_export_ids_all [OF ok] by blast
  then have eids: "\<And>s. s < length comm \<Longrightarrow>
      back_export_ids (int_memory s) (comm ! s) = Inr (eids s)
      \<and> length (eids s) = length (ba_out (comm ! s))"
    by blast
  let ?res = "received comm comm_rank eids d None"
  have 1: "communicateResultsBack comm comm_rank int_memory out_memory distance_memory = Inr ?res"
    using r ok eids d_def null by (rule communicateResultsBack_without_distances)
  have 3: "communicateResultsBack comm comm_rank int_memory out_memory other_distance_memory = Inr ?res"
    using r ok eids d_def null by (rule communicateResultsBack_without_distances)
  have 2: "ba_distances ?res = None"
    by (simp add: received_def)
  have var: "list_all (back_ok (length comm')) comm'
      \<and> (\<forall>s < length comm'. back_export_ids (int_memory s) (comm' ! s) = Inr (eids s)
            \<and> length (eids s) = length (ba_out (comm' ! s)))
      \<and> \<lparr>dist_rank = comm_rank,
             dist_destinations = map (\<lambda>a. batch_dests (ba_ranks a) (ba_offset a)) comm'\<rparr> = d
      \<and> (\<forall>x. received comm' comm_rank eids d x = received comm comm_rank eids d x)"
    if len: "length comm' = length comm"
      and eq: "\<forall>s < length comm. (comm' ! s)\<lparr>ba_distances := None\<rparr> = (comm ! s)\<lparr>ba_distances := None\<rparr>"
    for comm'
  proof -
    have e: "(comm' ! s)\<lparr>ba_distances := None\<rparr> = (comm ! s)\<lparr>ba_distances := None\<rparr>"
      if "s < length comm" for s
      using eq that by blast
    have a: "list_all (back_ok (length comm')) comm'"
      using ok len same_but_distances(5) [OF e] by (simp add: list_all_length)
    have b: "\<forall>s < length comm'. back_export_ids (int_memory s) (comm' ! s) = Inr (eids s)
            \<and> length (eids s) = length (ba_out (comm' ! s))"
      using eids len same_but_distances(1,6) [OF e] by simp
    have "map (\<lambda>a. batch_dests (ba_ranks a) (ba_offset a)) comm'
        = map (\<lambda>a. batch_dests (ba_ranks a) (ba_offset a)) comm"
      using len same_but_distances(2,3) [OF e] by (intro nth_equalityI) simp_all
    then have c: "\<lparr>dist_rank = comm_rank,
             dist_destinations = map (\<lambda>a. batch_dests (ba_ranks a) (ba_offset a)) comm'\<rparr> = d"
      by (simp add: d_def)
    have "map (\<lambda>(s, i). ba_out (comm' ! s) ! i) (arrivals d)
        = map (\<lambda>(s, i). ba_out (comm ! s) ! i) (arrivals d)"
      using same_but_distances(1) [OF e]
      by (intro map_cong refl) (auto simp: arrivals_member d_def)
    moreover have "map (\<lambda>(s, i). replicate (length (ba_out (comm' ! s))) (int s) ! i) (arrivals d)
        = map (\<lambda>(s, i). replicate (length (ba_out (comm ! s))) (int s) ! i) (arrivals d)"
      using same_but_distances(1) [OF e]
      by (intro map_cong refl) (auto simp: arrivals_member d_def)
    ultimately have "received comm' comm_rank eids d x = received comm comm_rank eids d x" for x
      unfolding received_def using same_but_distances(7) [OF e [OF r]] by simp
    with a b c show ?thesis
      by blast
  qed
  have 4: "\<forall>comm'. length comm' = length comm
          \<and> (\<forall>s < length comm. (comm' ! s)\<lparr>ba_distances := None\<rparr> = (comm ! s)\<lparr>ba_distances := None\<rparr>)
          \<and> ba_distances (comm' ! comm_rank) = None \<longrightarrow>
          communicateResultsBack comm' comm_rank int_memory out_memory distance_memory = Inr ?res"
  proof (intro allI impI, elim conjE)
    fix comm'
    assume len: "length comm' = length comm"
      and eq: "\<forall>s < length comm. (comm' ! s)\<lparr>ba_distances := None\<rparr> = (comm ! s)\<lparr>ba_distances := None\<rparr>"
      and n: "ba_distances (comm' ! comm_rank) = None"
    from var [OF len eq] have va: "list_all (back_ok (length comm')) comm'"
      and vb: "\<And>s. s < length comm' \<Longrightarrow> back_export_ids (int_memory s) (comm' ! s) = Inr (eids s)
            \<and> length (eids s) = length (ba_out (comm' ! s))"
      and vc: "d = \<lparr>dist_rank = comm_rank,
             dist_destinations = map (\<lambda>a. batch_dests (ba_ranks a) (ba_offset a)) comm'\<rparr>"
      and vd: "received comm' comm_rank eids d None = ?res"
      by simp_all
    from r len have r': "comm_rank < length comm'"
      by simp
    have "communicateResultsBack comm' comm_rank int_memory out_memory distance_memory
        = Inr (received comm' comm_rank eids d None)"
      using r' va vb vc n by (rule communicateResultsBack_without_distances)
    then show "communicateResultsBack comm' comm_rank int_memory out_memory distance_memory = Inr ?res"
      by (simp only: vd)
  qed
  have 5: "\<forall>comm' res'. length comm' = length comm
          \<and> (\<forall>s < length comm. (comm' ! s)\<lparr>ba_distances := None\<rparr> = (comm ! s)\<lparr>ba_distances := None\<rparr>)
          \<and> communicateResultsBack comm' comm_rank int_memory out_memory distance_memory = Inr res' \<longrightarrow>
          ba_out res' = ba_out ?res \<and> ba_ranks res' = ba_ranks ?res \<and> ba_ids res' = ba_ids ?res"
  proof (intro allI impI, elim conjE)
    fix comm' res'
    assume len: "length comm' = length comm"
      and eq: "\<forall>s < length comm. (comm' ! s)\<lparr>ba_distances := None\<rparr> = (comm ! s)\<lparr>ba_distances := None\<rparr>"
      and run: "communicateResultsBack comm' comm_rank int_memory out_memory distance_memory = Inr res'"
    from var [OF len eq] have va: "list_all (back_ok (length comm')) comm'"
      and vb: "\<And>s. s < length comm' \<Longrightarrow> back_export_ids (int_memory s) (comm' ! s) = Inr (eids s)
            \<and> length (eids s) = length (ba_out (comm' ! s))"
      and vc: "d = \<lparr>dist_rank = comm_rank,
             dist_destinations = map (\<lambda>a. batch_dests (ba_ranks a) (ba_offset a)) comm'\<rparr>"
      and vd: "\<And>x. received comm' comm_rank eids d x = received comm comm_rank eids d x"
      by simp_all
    from r len have r': "comm_rank < length comm'"
      by simp
    have "\<exists>distances. res' = received comm' comm_rank eids d distances"
      using r' va vb vc run by (rule communicateResultsBack_fields)
    then obtain distances where "res' = received comm comm_rank eids d distances"
      unfolding vd by blast
    then show "ba_out res' = ba_out ?res \<and> ba_ranks res' = ba_ranks ?res \<and> ba_ids res' = ba_ids ?res"
      by (simp add: received_def)
  qed
  from 1 2 3 4 5 show ?thesis
    by (intro exI [of _ ?res] conjI)
qed

theorem communicateResultsBack_null_distances_witness:
  "(1::nat) < length [\<lparr>ba_out = [100, 101, 102 :: nat], ba_offset = [0, 2, 3], ba_ranks = [1, 0],
            ba_ids = [5, 6], ba_distances = None :: nat list option\<rparr>,
         \<lparr>ba_out = [200, 201], ba_offset = [0, 0, 1, 2], ba_ranks = [0, 0, 1],
            ba_ids = [7, 8, 9], ba_distances = None\<rparr>]
   \<and> list_all (back_ok 2) [\<lparr>ba_out = [100, 101, 102 :: nat], ba_offset = [0, 2, 3], ba_ranks = [1, 0],
            ba_ids = [5, 6], ba_distances = None :: nat list option\<rparr>,
         \<lparr>ba_out = [200, 201], ba_offset = [0, 0, 1, 2], ba_ranks = [0, 0, 1],
            ba_ids = [7, 8, 9], ba_distances = None\<rparr>]
   \<and> ba_distances ([\<lparr>ba_out = [100, 101, 102 :: nat], ba_offset = [0, 2, 3], ba_ranks = [1, 0],
            ba_ids = [5, 6], ba_distances = None :: nat list option\<rparr>,
         \<lparr>ba_out = [200, 201], ba_offset = [0, 0, 1, 2], ba_ranks = [0, 0, 1],
            ba_ids = [7, 8, 9], ba_distances = None\<rparr>] ! 1) = None
   \<and> communicateResultsBack [\<lparr>ba_out = [100, 101, 102 :: nat], ba_offset = [0, 2, 3], ba_ranks = [1, 0],
            ba_ids = [5, 6], ba_distances = None :: nat list option\<rparr>,
         \<lparr>ba_out = [200, 201], ba_offset = [0, 0, 1, 2], ba_ranks = [0, 0, 1],
            ba_ids = [7, 8, 9], ba_distances = None\<rparr>] 1 (\<lambda>_ _. 99) (\<lambda>_ _. 77) (\<lambda>_ _. 55)
       = Inr \<lparr>ba_out = [100, 101, 201], ba_offset = [0, 0, 1, 2], ba_ranks = [0, 0, 1],
              ba_ids = [5, 5, 9], ba_distances = None\<rparr>"
proof -
  let ?comm = "[\<lparr>ba_out = [100, 101, 102 :: nat], ba_offset = [0, 2, 3], ba_ranks = [1, 0],
            ba_ids = [5, 6], ba_distances = None :: nat list option\<rparr>,
         \<lparr>ba_out = [200, 201], ba_offset = [0, 0, 1, 2], ba_ranks = [0, 0, 1],
            ba_ids = [7, 8, 9], ba_distances = None\<rparr>]"
  have a: "(1::nat) < length ?comm"
    by simp
  have b: "list_all (back_ok (length ?comm)) ?comm" and b': "list_all (back_ok 2) ?comm"
    by code_simp+
  have c: "ba_distances (?comm ! 1) = None"
    by simp
  have f: "communicateResultsBack ?comm 1 (\<lambda>_ _. 99) (\<lambda>_ _. 77) (\<lambda>_ _. 55)
       = Inr \<lparr>ba_out = [100, 101, 201], ba_offset = [0, 0, 1, 2], ba_ranks = [0, 0, 1],
              ba_ids = [5, 5, 9], ba_distances = None\<rparr>"
    by code_simp
  from communicateResultsBack_null_distances [OF a b c, of "\<lambda>_ _. 99" "\<lambda>_ _. 77" "\<lambda>_ _. 55" "\<lambda>_ _. 0"]
    a b' c f
  show ?thesis
    by (intro conjI)
qed

section \<open>sortResults: the companions are permuted, the keys are not\<close>

lemma fetch_valid [simp]: "h < length store \<Longrightarrow> fetch store h = Inr (store ! h)"
  by (simp add: fetch_def)

lemma map_nth_perm: "map (\<lambda>i. f (perm ! i)) [0..<length perm] = map f perm"
  by (rule nth_equalityI) simp_all

lemma applyPermutation_ok:
  assumes "h < length st" and "length (st ! h) = length perm" and "\<forall>p \<in> set perm. p < length perm"
  shows "applyPermutation perm h st = Inr (st[h := map (\<lambda>p. st ! h ! p) perm])"
proof -
  have "collect (map (\<lambda>i. ebind (at perm (int i)) (\<lambda>p. at (st ! h) (int p))) [0..<length (st ! h)])
      = Inr (map (\<lambda>i. st ! h ! (perm ! i)) [0..<length (st ! h)])"
    using assms by (intro collect_map) simp
  then show ?thesis
    using assms(1,2) by (simp add: applyPermutation_def map_nth_perm)
qed

lemma apply_all_permutation:
  assumes "distinct hs" and "\<forall>h \<in> set hs. h < length st \<and> length (st ! h) = length perm"
    and "\<forall>p \<in> set perm. p < length perm"
  shows "apply_all (map (applyPermutation perm) hs) st
     = Inr (map (\<lambda>h. if h \<in> set hs then map (\<lambda>p. st ! h ! p) perm else st ! h) [0..<length st])"
  using assms(1,2)
proof (induction hs arbitrary: st)
  case Nil
  then show ?case by (simp add: map_nth)
next
  case (Cons h hs)
  let ?st = "st[h := map (\<lambda>p. st ! h ! p) perm]"
  have step: "applyPermutation perm h st = Inr ?st"
    using Cons.prems assms(3) by (intro applyPermutation_ok) simp_all
  have "apply_all (map (applyPermutation perm) hs) ?st
     = Inr (map (\<lambda>x. if x \<in> set hs then map (\<lambda>p. ?st ! x ! p) perm else ?st ! x) [0..<length ?st])"
    using Cons.prems by (intro Cons.IH) (auto simp: nth_list_update)
  moreover have "map (\<lambda>x. if x \<in> set hs then map (\<lambda>p. ?st ! x ! p) perm else ?st ! x) [0..<length ?st]
     = map (\<lambda>x. if x \<in> set (h # hs) then map (\<lambda>p. st ! x ! p) perm else st ! x) [0..<length st]"
    using Cons.prems by (intro nth_equalityI) (auto simp: nth_list_update)
  ultimately show ?case
    using step by simp
qed

lemma sort_key_indices:
  "mset (sort_key (\<lambda>i. v ! i) [0..<length v]) = mset [0..<length v]"
  "length (sort_key (\<lambda>i. v ! i) [0..<length v]) = length v"
  "\<forall>p \<in> set (sort_key (\<lambda>i. v ! i) [0..<length v]). p < length v"
  "sorted (map (\<lambda>i. v ! i) (sort_key (\<lambda>i. v ! i) [0..<length v]))"
  by (simp_all add: sorted_sort_key)


lemma sortResults_nonempty:
  assumes k: "keys < length store"
    and c: "\<forall>h \<in> set other_views. h < length store \<and> length (store ! h) = length (store ! keys)"
    and d: "distinct other_views"
    and ne: "store ! keys \<noteq> []"
    and perm: "perm = sort_key (\<lambda>i. store ! keys ! i) [0..<length (store ! keys)]"
  shows "sortResults store keys other_views memory
     = Inr (map (\<lambda>h. if h \<in> set other_views then map (\<lambda>p. store ! h ! p) perm else store ! h)
              [0..<length store])"
proof -
  let ?v = "store ! keys"
  let ?n = "length ?v"
  let ?fresh = "map memory [0..<?n]"
  let ?st3 = "store @ [map (\<lambda>i. ?v ! i) perm]"
  note p = sort_key_indices [of ?v, folded perm]
  have dc: "deep_copy (store @ [?fresh]) (length store) keys = Inr (store @ [?v])"
    using k by (simp add: deep_copy_def nth_append)
  have so: "sortObjects (store @ [?v]) (length store) = Inr (?st3, perm)"
    by (simp add: sortObjects_def perm Let_def)
  have h1: "\<forall>h \<in> set other_views. h < length ?st3 \<and> length (?st3 ! h) = length perm"
    using c p(2) by (auto simp: nth_append)
  have h2: "\<forall>q \<in> set perm. q < length perm"
    using p(2,3) by simp
  have "apply_all (map (applyPermutation perm) other_views) ?st3
     = Inr (map (\<lambda>h. if h \<in> set other_views then map (\<lambda>p. ?st3 ! h ! p) perm else ?st3 ! h)
              [0..<length ?st3])"
    using d h1 h2 by (rule apply_all_permutation)
  moreover have "take (length store)
        (map (\<lambda>h. if h \<in> set other_views then map (\<lambda>p. ?st3 ! h ! p) perm else ?st3 ! h)
              [0..<length ?st3])
     = map (\<lambda>h. if h \<in> set other_views then map (\<lambda>p. store ! h ! p) perm else store ! h)
              [0..<length store]"
    by (intro nth_equalityI) (auto simp: nth_append)
  ultimately show ?thesis
    using k ne by (simp add: sortResults_def view_alloc_def dc so)
qed

text \<open>
  Claim C5. Let the keys view and the companion views be views of the store, the
  companions distinct from each other and from the keys and of the keys' length. Then
  \<^verbatim>\<open>sortResults\<close> returns, and there is a permutation of the positions of the keys that
  sorts the keys ascending and that every companion has been rearranged by; the keys view,
  and every other view that is no companion, holds what it held before. With no keys the
  store is returned as it was.
\<close>

theorem sortResults_permutes_companions:
  assumes k: "keys < length store"
    and c: "\<forall>h \<in> set other_views. h < length store \<and> length (store ! h) = length (store ! keys)"
    and a: "keys \<notin> set other_views"
    and d: "distinct other_views"
  shows "\<exists>store' permutation. sortResults store keys other_views memory = Inr store'
     \<and> length store' = length store
     \<and> store' ! keys = store ! keys
     \<and> (\<forall>h < length store. h \<notin> set other_views \<longrightarrow> store' ! h = store ! h)
     \<and> mset permutation = mset [0..<length (store ! keys)]
     \<and> sorted (map (\<lambda>p. store ! keys ! p) permutation)
     \<and> (\<forall>h \<in> set other_views. store' ! h = map (\<lambda>p. store ! h ! p) permutation)
     \<and> (store ! keys = [] \<longrightarrow> store' = store)"
proof (cases "store ! keys = []")
  case True
  have 1: "sortResults store keys other_views memory = Inr store"
    using k True by (simp add: sortResults_def)
  have 2: "\<forall>h \<in> set other_views. store ! h = map (\<lambda>p. store ! h ! p) []"
    using c True by simp
  from 1 2 True show ?thesis
    by (intro exI [of _ store] exI [of _ "[]"]) simp
next
  case False
  define perm where "perm = sort_key (\<lambda>i. store ! keys ! i) [0..<length (store ! keys)]"
  let ?store' = "map (\<lambda>h. if h \<in> set other_views then map (\<lambda>p. store ! h ! p) perm else store ! h)
              [0..<length store]"
  note p = sort_key_indices [of "store ! keys", folded perm_def]
  have 1: "sortResults store keys other_views memory = Inr ?store'"
    using k c d False perm_def by (rule sortResults_nonempty)
  have 2: "length ?store' = length store"
    by simp
  have 3: "?store' ! keys = store ! keys"
    using k a by simp
  have 4: "\<forall>h < length store. h \<notin> set other_views \<longrightarrow> ?store' ! h = store ! h"
    by simp
  have 5: "\<forall>h \<in> set other_views. ?store' ! h = map (\<lambda>p. store ! h ! p) perm"
    using c by simp
  have 6: "store ! keys = [] \<longrightarrow> ?store' = store"
    using False by simp
  from 1 2 3 4 p(1) p(4) 5 6 show ?thesis
    by (intro exI [of _ ?store'] exI [of _ perm] conjI)
qed

theorem sortResults_permutes_companions_witness:
  "(0::nat) < length [[3, 1, 2, 1 :: nat], [10, 11, 12, 13], [20, 21, 22, 23], [7]]
   \<and> (0::nat) \<notin> set [1, 2] \<and> distinct [1, 2 :: nat]
   \<and> sortResults [[3, 1, 2, 1 :: nat], [10, 11, 12, 13], [20, 21, 22, 23], [7]] 0 [1, 2] (\<lambda>_. 0)
       = Inr [[3, 1, 2, 1], [11, 13, 12, 10], [21, 23, 22, 20], [7]]
   \<and> sortResults [[], [] :: nat list] 0 [1] (\<lambda>_. 0) = Inr [[], []]"
proof -
  let ?store = "[[3, 1, 2, 1 :: nat], [10, 11, 12, 13], [20, 21, 22, 23], [7]]"
  have k: "(0::nat) < length ?store"
    by simp
  have c: "\<forall>h \<in> set [1, 2]. h < length ?store \<and> length (?store ! h) = length (?store ! 0)"
    by simp
  have a: "(0::nat) \<notin> set [1, 2]" and d: "distinct [1, 2 :: nat]"
    by simp_all
  have e: "sortResults ?store 0 [1, 2] (\<lambda>_. 0)
       = Inr [[3, 1, 2, 1], [11, 13, 12, 10], [21, 23, 22, 20], [7]]"
    by code_simp
  have f: "sortResults [[], [] :: nat list] 0 [1] (\<lambda>_. 0) = Inr [[], []]"
    by code_simp
  from sortResults_permutes_companions [OF k c a d, of "\<lambda>_. 0"] k a d e f
  show ?thesis
    by (intro conjI)
qed

section \<open>filterResults: the nearest candidates of each query\<close>

subsection \<open>The elements popped from a queue\<close>

lemma highest_least:
  "snd (highest CompareDistance b ys) \<le> snd b
   \<and> (\<forall>y \<in> set ys. snd (highest CompareDistance b ys) \<le> snd y)"
proof (induction ys arbitrary: b)
  case Nil
  show ?case by simp
next
  case (Cons y ys)
  from Cons [of "if CompareDistance b y then y else b"] show ?case
    by (auto simp: CompareDistance_def split: if_splits)
qed

lemma popped_Nil [simp]: "popped k [] = []"
  by (cases k) simp_all

lemma length_remove1_highest:
  "length (remove1 (highest compare x xs) (x # xs)) = length xs"
  using highest_member [of compare x xs] by (simp only: length_remove1 if_True) simp

lemma mset_remove1_highest:
  "add_mset (highest compare x xs) (mset (remove1 (highest compare x xs) (x # xs))) = mset (x # xs)"
  using highest_member [of compare x xs] by (simp only: mset_remove1 insert_DiffM set_mset_mset)

lemma length_popped: "length (popped k xs) = min k (length xs)"
proof (induction k arbitrary: xs)
  case 0
  show ?case by simp
next
  case (Suc k)
  show ?case
  proof (cases xs)
    case Nil
    then show ?thesis by simp
  next
    case (Cons x xs')
    then show ?thesis
      using Suc [of "remove1 (highest CompareDistance x xs') (x # xs')"]
      by (simp add: length_remove1_highest del: remove1.simps)
  qed
qed

lemma popped_take: "popped k xs = take k (popped (length xs) xs)"
proof (induction k arbitrary: xs)
  case 0
  show ?case by simp
next
  case (Suc k)
  show ?case
  proof (cases xs)
    case Nil
    then show ?thesis by simp
  next
    case (Cons x xs')
    let ?r = "remove1 (highest CompareDistance x xs') (x # xs')"
    have "popped (length xs) xs = highest CompareDistance x xs' # popped (length ?r) ?r"
      using Cons by (simp add: length_remove1_highest del: remove1.simps)
    then show ?thesis
      using Cons Suc [of ?r] by (simp del: remove1.simps)
  qed
qed

lemma mset_popped: "length xs \<le> k \<Longrightarrow> mset (popped k xs) = mset xs"
proof (induction k arbitrary: xs)
  case 0
  then show ?case by simp
next
  case (Suc k)
  show ?case
  proof (cases xs)
    case Nil
    then show ?thesis by simp
  next
    case (Cons x xs')
    let ?r = "remove1 (highest CompareDistance x xs') (x # xs')"
    have "mset (popped k ?r) = mset ?r"
      using Suc.prems Cons by (intro Suc.IH) (simp add: length_remove1_highest del: remove1.simps)
    then show ?thesis
      using Cons mset_remove1_highest [of CompareDistance x xs'] by (simp del: remove1.simps)
  qed
qed

lemma set_popped: "set (popped k xs) \<subseteq> set xs"
proof (induction k arbitrary: xs)
  case 0
  show ?case by simp
next
  case (Suc k)
  show ?case
  proof (cases xs)
    case Nil
    then show ?thesis by simp
  next
    case (Cons x xs')
    let ?r = "remove1 (highest CompareDistance x xs') (x # xs')"
    have "set (popped k ?r) \<subseteq> set ?r"
      by (rule Suc.IH)
    also have "\<dots> \<subseteq> set (x # xs')"
      by (rule set_remove1_subset)
    finally show ?thesis
      using Cons highest_member [of CompareDistance x xs'] by (simp del: remove1.simps)
  qed
qed

lemma sorted_popped: "sorted (map snd (popped k xs))"
proof (induction k arbitrary: xs)
  case 0
  show ?case by simp
next
  case (Suc k)
  show ?case
  proof (cases xs)
    case Nil
    then show ?thesis by simp
  next
    case (Cons x xs')
    let ?h = "highest CompareDistance x xs'"
    let ?r = "remove1 ?h (x # xs')"
    have "set (popped k ?r) \<subseteq> set (x # xs')"
      using set_popped [of k ?r] set_remove1_subset [of ?h "x # xs'"] by blast
    moreover have "\<forall>y \<in> set (x # xs'). snd ?h \<le> snd y"
      using highest_least [of x xs'] by simp
    ultimately have "\<forall>y \<in> set (popped k ?r). snd ?h \<le> snd y"
      by blast
    then show ?thesis
      using Cons Suc.IH [of ?r] by (simp del: remove1.simps)
  qed
qed


subsection \<open>The loop that pops\<close>

lemma length_overwrite [simp]: "length (overwrite v pos ys) = length v"
  by (simp add: overwrite_def)

lemma nth_overwrite:
  "i < length v \<Longrightarrow>
   overwrite v pos ys ! i = (if pos \<le> i \<and> i < pos + length ys then ys ! (i - pos) else v ! i)"
  by (simp add: overwrite_def)

lemma overwrite_Nil [simp]: "overwrite v pos [] = v"
  by (rule nth_equalityI) (auto simp: nth_overwrite)

lemma overwrite_step:
  "pos < length v \<Longrightarrow> overwrite (v[pos := a]) (Suc pos) ys = overwrite v pos (a # ys)"
  by (rule nth_equalityI) (auto simp: nth_overwrite nth_list_update nth_Cons')

lemma pop_loop_result:
  assumes "at new_offset q = Inr base" and "0 \<le> base" and "0 \<le> count'"
    and "nat (base + count') + min (nat (k - count')) (length xs) \<le> length ni"
    and "nat (base + count') + min (nat (k - count')) (length xs) \<le> length nr"
  shows "pop_loop new_offset q k \<lparr>pq_elements = xs, pq_capacity = c\<rparr> count' (ni, nr)
     = Inr (overwrite ni (nat (base + count')) (map (\<lambda>t. fst (fst t)) (popped (nat (k - count')) xs)),
            overwrite nr (nat (base + count')) (map (\<lambda>t. snd (fst t)) (popped (nat (k - count')) xs)))"
  using assms(3-5)
proof (induction n \<equiv> "length xs" arbitrary: xs count' ni nr)
  case 0
  then show ?case
    by (simp add: pq_empty_def)
next
  case (Suc n)
  then obtain x xs' where xs: "xs = x # xs'"
    by (cases xs) auto
  show ?case
  proof (cases "count' < k")
    case False
    then have "nat (k - count') = 0"
      by simp
    with False show ?thesis
      by simp
  next
    case True
    let ?h = "highest CompareDistance x xs'"
    let ?r = "remove1 ?h (x # xs')"
    let ?p = "nat (base + count')"
    let ?ni = "ni[?p := fst (fst ?h)]"
    let ?nr = "nr[?p := snd (fst ?h)]"
    from True obtain j where j: "nat (k - count') = Suc j" "nat (k - (count' + 1)) = j"
      by (cases "nat (k - count')") auto
    have p: "?p < length ni" "?p < length nr"
      using Suc.prems(2,3) j xs by simp_all
    have pos: "nat (base + (count' + 1)) = Suc ?p"
      using assms(2) Suc.prems(1) by (simp add: nat_add_distrib)
    have lr: "length ?r = length xs'"
      by (rule length_remove1_highest)
    have a1: "assign ni (base + count') (fst (fst ?h)) = Inr ?ni"
      and a2: "assign nr (base + count') (snd (fst ?h)) = Inr ?nr"
      using p assms(2) Suc.prems(1) by (simp_all add: assign_def)
    have tp: "pq_top CompareDistance \<lparr>pq_elements = xs, pq_capacity = c\<rparr> = Inr ?h"
      and pp: "pq_pop CompareDistance \<lparr>pq_elements = xs, pq_capacity = c\<rparr>
          = Inr \<lparr>pq_elements = ?r, pq_capacity = c\<rparr>"
      by (simp_all add: pq_top_def pq_pop_def xs del: remove1.simps)
    have IH: "pop_loop new_offset q k \<lparr>pq_elements = ?r, pq_capacity = c\<rparr> (count' + 1) (?ni, ?nr)
       = Inr (overwrite ?ni (nat (base + (count' + 1))) (map (\<lambda>t. fst (fst t)) (popped (nat (k - (count' + 1))) ?r)),
              overwrite ?nr (nat (base + (count' + 1))) (map (\<lambda>t. snd (fst t)) (popped (nat (k - (count' + 1))) ?r)))"
    proof (rule Suc.hyps(1))
      show "n = length ?r"
        using Suc.hyps(2) xs lr by simp
      show "0 \<le> count' + 1"
        using Suc.prems(1) by simp
      show "nat (base + (count' + 1)) + min (nat (k - (count' + 1))) (length ?r) \<le> length ?ni"
        using Suc.prems(2) j xs unfolding pos lr by simp
      show "nat (base + (count' + 1)) + min (nat (k - (count' + 1))) (length ?r) \<le> length ?nr"
        using Suc.prems(3) j xs unfolding pos lr by simp
    qed
    have pd: "popped (nat (k - count')) xs = ?h # popped j ?r"
      by (simp add: j xs del: remove1.simps)
    have ne: "\<not> pq_empty \<lparr>pq_elements = xs, pq_capacity = c\<rparr>"
      by (simp add: pq_empty_def xs)
    have "pop_loop new_offset q k \<lparr>pq_elements = xs, pq_capacity = c\<rparr> count' (ni, nr)
       = pop_loop new_offset q k \<lparr>pq_elements = ?r, pq_capacity = c\<rparr> (count' + 1) (?ni, ?nr)"
      using True ne by (subst pop_loop.simps) (simp add: assms(1) tp pp a1 a2 del: remove1.simps)
    also note IH
    finally show ?thesis
      unfolding pos j(2) pd using p by (simp add: overwrite_step del: remove1.simps)
  qed
qed


subsection \<open>The loop that fills the queue\<close>

lemma for_range_invariant:
  assumes "I lo s"
    and "\<And>i s. lo \<le> i \<Longrightarrow> i < hi \<Longrightarrow> I i s \<Longrightarrow> \<exists>s'. body i s = Inr s' \<and> I (i + 1) s'"
    and "lo \<le> hi"
  shows "\<exists>s'. for_range lo hi body s = Inr s' \<and> I hi s'"
  using assms
proof (induction "nat (hi - lo)" arbitrary: lo s)
  case 0
  then have "hi = lo" by simp
  with 0 show ?case
    by (simp add: for_range_def)
next
  case (Suc n)
  then have lt: "lo < hi" by linarith
  then have up: "[lo..hi - 1] = lo # [lo + 1..hi - 1]"
    by (simp add: upto_rec1)
  from Suc.prems(2) [of lo s] lt Suc.prems(1) obtain s1 where s1: "body lo s = Inr s1" "I (lo + 1) s1"
    by auto
  have "\<exists>s'. for_range (lo + 1) hi body s1 = Inr s' \<and> I hi s'"
  proof (rule Suc.hyps(1))
    show "n = nat (hi - (lo + 1))"
      using Suc.hyps(2) by linarith
    show "I (lo + 1) s1"
      by (rule s1)
    show "\<exists>s'. body i s = Inr s' \<and> I (i + 1) s'" if "lo + 1 \<le> i" "i < hi" "I i s" for i s
      using that Suc.prems(2) [of i s] by simp
    show "lo + 1 \<le> hi"
      using lt by simp
  qed
  then show ?case
    using s1 by (simp add: for_range_def up)
qed

lemma fill_queue:
  assumes lo: "0 \<le> lo" and le: "lo \<le> hi"
    and len: "hi \<le> int (length indices)" "hi \<le> int (length ranks)" "hi \<le> int (length distances)"
  shows "for_range lo hi (\<lambda>i queue.
                ebind (at indices i) (\<lambda>index.
                ebind (at ranks i) (\<lambda>rank.
                ebind (at distances i) (\<lambda>distance.
                pq_emplace queue ((index, rank), distance))))) (pq_new (nat (hi - lo)))
     = Inr \<lparr>pq_elements = map (\<lambda>i. ((indices ! i, ranks ! i), distances ! i)) [nat lo..<nat hi],
            pq_capacity = nat (hi - lo)\<rparr>"
proof -
  let ?f = "\<lambda>i. ((indices ! i, ranks ! i), distances ! i)"
  let ?I = "\<lambda>i queue. queue = \<lparr>pq_elements = map ?f [nat lo..<nat i], pq_capacity = nat (hi - lo)\<rparr>"
  let ?body = "\<lambda>i queue.
                ebind (at indices i) (\<lambda>index.
                ebind (at ranks i) (\<lambda>rank.
                ebind (at distances i) (\<lambda>distance.
                pq_emplace queue ((index, rank), distance))))"
  have "\<exists>s'. for_range lo hi ?body (pq_new (nat (hi - lo))) = Inr s' \<and> ?I hi s'"
  proof (rule for_range_invariant [where I = ?I])
    show "?I lo (pq_new (nat (hi - lo)))"
      by (simp add: pq_new_def)
    show "lo \<le> hi"
      by (rule le)
    show "\<exists>s'. ?body i s = Inr s' \<and> ?I (i + 1) s'" if "lo \<le> i" "i < hi" "?I i s" for i s
    proof -
      have "nat (i + 1) = Suc (nat i)" "nat lo \<le> nat i"
        using that lo by simp_all
      then have "[nat lo..<nat (i + 1)] = [nat lo..<nat i] @ [nat i]"
        by simp
      moreover have "nat i - nat lo < nat (hi - lo)"
        using that lo by linarith
      ultimately show ?thesis
        using that lo len by (simp add: at_def pq_emplace_def)
    qed
  qed
  then show ?thesis
    by simp
qed


subsection \<open>The new offsets\<close>

lemma kept_nonneg:
  assumes "filter_ok getK queries distances indices offset ranks" and "q < length queries"
  shows "0 \<le> kept getK queries offset q"
proof -
  have "offset ! q \<le> offset ! Suc q"
    using assms csr_nth_mono [of offset "length queries" q "Suc q"] by (simp add: filter_ok_def)
  moreover have "0 \<le> getK (queries ! q)"
    using assms by (simp add: filter_ok_def list_all_length)
  ultimately show ?thesis
    by (simp add: kept_def)
qed

lemma discard_results_loop:
  assumes "filter_ok getK queries distances indices offset ranks"
  shows "parallel_for (int (length queries)) (\<lambda>q new_offset.
               ebind (at offset (q + 1)) (\<lambda>hi.
               ebind (at offset q) (\<lambda>lo.
               ebind (at queries q) (\<lambda>query.
               assign new_offset q (min (hi - lo) (getK query))))))
           (replicate (Suc (length queries)) 0)
     = Inr (map (kept getK queries offset) [0..<length queries] @ [0])"
proof -
  let ?n = "length queries"
  let ?body = "\<lambda>q new_offset.
               ebind (at offset (q + 1)) (\<lambda>hi.
               ebind (at offset q) (\<lambda>lo.
               ebind (at queries q) (\<lambda>query.
               assign new_offset q (min (hi - lo) (getK query)))))"
  let ?I = "\<lambda>m s. s = map (\<lambda>q. if q < m then kept getK queries offset q else 0) [0..<Suc ?n]"
  have len: "length offset = Suc ?n"
    using assms by (simp add: filter_ok_def csr_def)
  have "\<exists>s'. parallel_for (int ?n) ?body (replicate (Suc ?n) 0) = Inr s' \<and> ?I ?n s'"
  proof (rule parallel_for_invariant [where I = ?I])
    show "?I 0 (replicate (Suc ?n) 0)"
      by (intro nth_equalityI) (simp_all del: upt_Suc replicate_Suc)
    show "\<exists>s'. ?body (int m) s = Inr s' \<and> ?I (Suc m) s'" if "m < ?n" "?I m s" for m s
    proof -
      have rd: "at offset (int m + 1) = Inr (offset ! Suc m)" "at offset (int m) = Inr (offset ! m)"
        "at queries (int m) = Inr (queries ! m)"
        using that(1) len by (simp_all add: at_def nat_add_distrib)
      have ls: "length s = Suc ?n"
        using that(2) by simp
      have "s[m := kept getK queries offset m]
          = map (\<lambda>q. if q < Suc m then kept getK queries offset q else 0) [0..<Suc ?n]"
        using that by (intro nth_equalityI) (auto simp: nth_list_update simp del: upt_Suc)
      then show ?thesis
        using that(1) ls by (simp add: rd assign_def kept_def del: upt_Suc)
    qed
  qed
  moreover have "map (\<lambda>q. if q < ?n then kept getK queries offset q else 0) [0..<Suc ?n]
      = map (kept getK queries offset) [0..<?n] @ [0]"
    by simp
  ultimately show ?thesis
    by simp
qed

lemma new_offsets_props:
  assumes ok: "filter_ok getK queries distances indices offset ranks"
  shows "length (new_offsets getK queries offset) = Suc (length queries)"
    and "new_offsets getK queries offset ! 0 = 0"
    and "\<And>q. q < length queries \<Longrightarrow>
       new_offsets getK queries offset ! Suc q
         = new_offsets getK queries offset ! q + kept getK queries offset q"
    and "csr (new_offsets getK queries offset) (length queries)"
proof -
  let ?v = "map (kept getK queries offset) [0..<length queries] @ [0]"
  show 1: "length (new_offsets getK queries offset) = Suc (length queries)"
    by (simp add: new_offsets_def)
  show 2: "new_offsets getK queries offset ! 0 = 0"
    by (simp add: new_offsets_def exclusive_scan_nth)
  show 3: "new_offsets getK queries offset ! Suc q
         = new_offsets getK queries offset ! q + kept getK queries offset q"
    if "q < length queries" for q
  proof -
    have "exclusive_scan ?v 0 ! Suc q = exclusive_scan ?v 0 ! q + ?v ! q"
      using that by (intro exclusive_scan_step) simp
    moreover have "?v ! q = kept getK queries offset q"
      using that by (simp add: nth_append)
    ultimately show ?thesis
      by (simp add: new_offsets_def)
  qed
  have "\<forall>x \<in> set ?v. 0 \<le> x"
    using kept_nonneg [OF ok] by auto
  then have "sorted (new_offsets getK queries offset)"
    unfolding new_offsets_def by (rule exclusive_scan_sorted)
  with 1 2 show "csr (new_offsets getK queries offset) (length queries)"
    by (simp add: csr_def)
qed


subsection \<open>The truncation of one query, and of all\<close>

lemma length_nearest:
  assumes ok: "filter_ok getK queries distances indices offset ranks" and q: "q < length queries"
  shows "int (length (nearest getK queries distances indices offset ranks q))
     = kept getK queries offset q"
proof -
  have c: "csr offset (length queries)"
    using ok by (simp add: filter_ok_def)
  have "offset ! q \<le> offset ! Suc q" "0 \<le> offset ! q"
    using csr_nth_mono [OF c, of q "Suc q"] csr_nonneg [OF c, of q] q by simp_all
  moreover have "0 \<le> getK (queries ! q)"
    using ok q by (simp add: filter_ok_def list_all_length)
  ultimately have "int (min (nat (getK (queries ! q))) (nat (offset ! Suc q) - nat (offset ! q)))
      = min (offset ! Suc q - offset ! q) (getK (queries ! q))"
    by arith
  then show ?thesis
    by (simp add: nearest_def length_popped candidates_def kept_def)
qed

lemma truncate_results_step:
  assumes ok: "filter_ok getK queries distances indices offset ranks"
    and m: "m < length queries"
    and no: "new_offset = new_offsets getK queries offset"
    and len: "int (length ni) = last new_offset" "int (length nr) = last new_offset"
  shows "truncate_results getK queries distances indices offset ranks new_offset (last offset) (int m) (ni, nr)
     = Inr (overwrite ni (nat (new_offset ! m))
              (map (\<lambda>t. fst (fst t)) (nearest getK queries distances indices offset ranks m)),
            overwrite nr (nat (new_offset ! m))
              (map (\<lambda>t. snd (fst t)) (nearest getK queries distances indices offset ranks m)))"
proof -
  let ?n = "length queries"
  let ?lo = "offset ! m" and ?hi = "offset ! Suc m"
  let ?ps = "nearest getK queries distances indices offset ranks m"
  have c: "csr offset ?n"
    using ok by (simp add: filter_ok_def)
  have lo: "0 \<le> ?lo" and le: "?lo \<le> ?hi" and hi: "?hi \<le> last offset"
    using csr_nonneg [OF c, of m] csr_nth_mono [OF c, of m "Suc m"]
      csr_nth_mono [OF c, of "Suc m" ?n] csr_last [OF c] m by simp_all
  have rd: "at offset (int m + 1) = Inr ?hi" "at offset (int m) = Inr ?lo"
    "at queries (int m) = Inr (queries ! m)"
    using m c by (simp_all add: at_def nat_add_distrib csr_def)
  show ?thesis
  proof (cases "?hi > ?lo")
    case False
    with le have "?hi = ?lo"
      by simp
    then have "?ps = []"
      by (simp add: nearest_def candidates_def)
    with False show ?thesis
      by (simp add: truncate_results_def rd)
  next
    case True
    note n = new_offsets_props [OF ok, folded no]
    have sv: "subview_size (last offset) ?lo ?hi = Inr (nat (?hi - ?lo))"
      using lo le hi by (simp add: subview_size_def)
    have fq: "for_range ?lo ?hi (\<lambda>i queue.
                ebind (at indices i) (\<lambda>index.
                ebind (at ranks i) (\<lambda>rank.
                ebind (at distances i) (\<lambda>distance.
                pq_emplace queue ((index, rank), distance))))) (pq_new (nat (?hi - ?lo)))
       = Inr \<lparr>pq_elements = candidates distances indices offset ranks m,
              pq_capacity = nat (?hi - ?lo)\<rparr>"
      unfolding candidates_def using lo le
    proof (rule fill_queue)
      show "?hi \<le> int (length indices)" "?hi \<le> int (length ranks)" "?hi \<le> int (length distances)"
        using hi ok by (simp_all add: filter_ok_def)
    qed
    have base: "at new_offset (int m) = Inr (new_offset ! m)"
      using m n(1) by (simp add: at_def)
    have b0: "0 \<le> new_offset ! m"
      using csr_nonneg [OF n(4), of m] m by simp
    have "new_offset ! Suc m \<le> last new_offset"
      using csr_nth_mono [OF n(4), of "Suc m" ?n] csr_last [OF n(4)] m by simp
    moreover have "new_offset ! Suc m = new_offset ! m + int (length ?ps)"
      using n(3) [OF m] length_nearest [OF ok m] by simp
    ultimately have "nat (new_offset ! m) + length ?ps \<le> nat (last new_offset)"
      using b0 by linarith
    moreover have "length ?ps
        = min (nat (getK (queries ! m) - 0)) (length (candidates distances indices offset ranks m))"
      by (simp add: nearest_def length_popped)
    ultimately have bound:
      "nat (new_offset ! m + 0) + min (nat (getK (queries ! m) - 0))
          (length (candidates distances indices offset ranks m)) \<le> length ni"
      "nat (new_offset ! m + 0) + min (nat (getK (queries ! m) - 0))
          (length (candidates distances indices offset ranks m)) \<le> length nr"
      using len by simp_all
    have "pop_loop new_offset (int m) (getK (queries ! m))
        \<lparr>pq_elements = candidates distances indices offset ranks m, pq_capacity = nat (?hi - ?lo)\<rparr>
        0 (ni, nr)
      = Inr (overwrite ni (nat (new_offset ! m + 0))
               (map (\<lambda>t. fst (fst t))
                  (popped (nat (getK (queries ! m) - 0)) (candidates distances indices offset ranks m))),
             overwrite nr (nat (new_offset ! m + 0))
               (map (\<lambda>t. snd (fst t))
                  (popped (nat (getK (queries ! m) - 0)) (candidates distances indices offset ranks m))))"
      using base b0 _ bound by (rule pop_loop_result) simp
    then show ?thesis
      using True by (simp add: truncate_results_def rd sv fq nearest_def)
  qed
qed

lemma truncate_results_loop:
  assumes ok: "filter_ok getK queries distances indices offset ranks"
    and no: "new_offset = new_offsets getK queries offset"
    and len: "int (length ni) = last new_offset" "int (length nr) = last new_offset"
  shows "\<exists>ni' nr'. parallel_for (int (length queries))
         (truncate_results getK queries distances indices offset ranks new_offset (last offset)) (ni, nr)
       = Inr (ni', nr')
     \<and> length ni' = length ni \<and> length nr' = length nr
     \<and> (\<forall>q < length queries. \<forall>j < length (nearest getK queries distances indices offset ranks q).
           ni' ! (nat (new_offset ! q) + j)
             = fst (fst (nearest getK queries distances indices offset ranks q ! j))
           \<and> nr' ! (nat (new_offset ! q) + j)
             = snd (fst (nearest getK queries distances indices offset ranks q ! j)))"
proof -
  let ?n = "length queries"
  let ?ps = "nearest getK queries distances indices offset ranks"
  let ?I = "\<lambda>m s. length (fst s) = length ni \<and> length (snd s) = length nr
     \<and> (\<forall>q < m. \<forall>j < length (?ps q).
           fst s ! (nat (new_offset ! q) + j) = fst (fst (?ps q ! j))
           \<and> snd s ! (nat (new_offset ! q) + j) = snd (fst (?ps q ! j)))"
  note n = new_offsets_props [OF ok, folded no]
  have inside: "nat (new_offset ! q) + j < nat (new_offset ! Suc q)
      \<and> nat (new_offset ! Suc q) \<le> nat (last new_offset) \<and> 0 \<le> new_offset ! q"
    if "q < ?n" "j < length (?ps q)" for q j
  proof -
    have "new_offset ! Suc q = new_offset ! q + int (length (?ps q))"
      using n(3) [OF that(1)] length_nearest [OF ok that(1)] by simp
    moreover have "0 \<le> new_offset ! q"
      using csr_nonneg [OF n(4), of q] that(1) by simp
    moreover have "new_offset ! Suc q \<le> last new_offset"
      using csr_nth_mono [OF n(4), of "Suc q" ?n] csr_last [OF n(4)] that(1) by simp
    ultimately show ?thesis
      using that(2) by linarith
  qed
  have "\<exists>s'. parallel_for (int ?n)
         (truncate_results getK queries distances indices offset ranks new_offset (last offset)) (ni, nr)
       = Inr s' \<and> ?I ?n s'"
  proof (rule parallel_for_invariant [where I = ?I])
    show "?I 0 (ni, nr)"
      by simp
    show "\<exists>s'. truncate_results getK queries distances indices offset ranks new_offset (last offset)
              (int m) s = Inr s' \<and> ?I (Suc m) s'"
      if m: "m < ?n" and inv: "?I m s" for m s
    proof -
      obtain a b where s: "s = (a, b)"
        by (cases s)
      let ?a = "overwrite a (nat (new_offset ! m)) (map (\<lambda>t. fst (fst t)) (?ps m))"
      let ?b = "overwrite b (nat (new_offset ! m)) (map (\<lambda>t. snd (fst t)) (?ps m))"
      have la: "int (length a) = last new_offset" "int (length b) = last new_offset"
        using inv len by (simp_all add: s)
      have run: "truncate_results getK queries distances indices offset ranks new_offset (last offset)
              (int m) s = Inr (?a, ?b)"
        unfolding s using ok m no la by (rule truncate_results_step)
      have "fst (?a, ?b) ! (nat (new_offset ! q) + j) = fst (fst (?ps q ! j))
           \<and> snd (?a, ?b) ! (nat (new_offset ! q) + j) = snd (fst (?ps q ! j))"
        if q: "q < Suc m" and j: "j < length (?ps q)" for q j
      proof -
        have qn: "q < ?n"
          using q m by simp
        note i = inside [OF qn j]
        have pl: "nat (new_offset ! q) + j < length a" "nat (new_offset ! q) + j < length b"
          using i la by linarith+
        show ?thesis
        proof (cases "q = m")
          case True
          with j pl show ?thesis
            by (simp add: nth_overwrite)
        next
          case False
          with q have qm: "q < m"
            by simp
          have "new_offset ! Suc q \<le> new_offset ! m"
            using csr_nth_mono [OF n(4), of "Suc q" m] qm m by simp
          with i have "\<not> nat (new_offset ! m) \<le> nat (new_offset ! q) + j"
            by linarith
          with pl inv qm j show ?thesis
            by (simp add: nth_overwrite s)
        qed
      qed
      then have "?I (Suc m) (?a, ?b)"
        using inv by (simp add: s)
      with run show ?thesis
        by blast
    qed
  qed
  then show ?thesis
    by auto
qed


lemma filterResults_run:
  assumes ok: "filter_ok getK queries distances indices offset ranks"
  shows "\<exists>ni nr. filterResults getK queries distances indices offset ranks
       = Inr (ni, new_offsets getK queries offset, nr)
     \<and> int (length ni) = last (new_offsets getK queries offset)
     \<and> int (length nr) = last (new_offsets getK queries offset)
     \<and> (\<forall>q < length queries. \<forall>j < length (nearest getK queries distances indices offset ranks q).
           ni ! (nat (new_offsets getK queries offset ! q) + j)
             = fst (fst (nearest getK queries distances indices offset ranks q ! j))
           \<and> nr ! (nat (new_offsets getK queries offset ! q) + j)
             = snd (fst (nearest getK queries distances indices offset ranks q ! j)))"
proof -
  let ?n = "length queries"
  let ?no = "new_offsets getK queries offset"
  let ?z = "replicate (nat (last ?no)) (0::int)"
  note n = new_offsets_props [OF ok]
  have c: "csr offset ?n"
    using ok by (simp add: filter_ok_def)
  have l0: "0 \<le> last ?no"
    using csr_nonneg [OF n(4), of ?n] csr_last [OF n(4)] by simp
  have lo: "0 \<le> last offset"
    using csr_nonneg [OF c, of ?n] csr_last [OF c] by simp
  have e1: "lastElement ?no = Inr (last ?no)"
    using n(1) by (auto simp: lastElement_def)
  have e2: "lastElement offset = Inr (last offset)"
    using c by (auto simp: lastElement_def csr_def)
  have z1: "zero_initialized (int ?n + 1) = Inr (replicate (Suc ?n) 0)"
    by (simp add: zero_initialized_def nat_add_distrib)
  have z2: "zero_initialized (last ?no) = Inr ?z"
    using l0 by (simp add: zero_initialized_def)
  have lz: "int (length ?z) = last ?no"
    using l0 by simp
  from truncate_results_loop [OF ok refl lz lz]
  obtain ni nr where run: "parallel_for (int ?n)
         (truncate_results getK queries distances indices offset ranks ?no (last offset)) (?z, ?z)
       = Inr (ni, nr)"
    and len: "length ni = length ?z" "length nr = length ?z"
    and nth: "\<forall>q < ?n. \<forall>j < length (nearest getK queries distances indices offset ranks q).
           ni ! (nat (?no ! q) + j) = fst (fst (nearest getK queries distances indices offset ranks q ! j))
           \<and> nr ! (nat (?no ! q) + j) = snd (fst (nearest getK queries distances indices offset ranks q ! j))"
    by blast
  have "filterResults getK queries distances indices offset ranks = Inr (ni, ?no, nr)"
    using lo
    by (simp add: filterResults_def Let_def z1 discard_results_loop [OF ok] e1 e2 z2 run
        del: replicate.simps flip: new_offsets_def)
  with len lz nth show ?thesis
    by (intro exI [of _ ni] exI [of _ nr]) simp
qed

text \<open>
  Claim C1. For well-formed inputs (see \<open>filter_ok\<close>; the requested counts may even be 0),
  \<^verbatim>\<open>filterResults\<close> returns new views such that: the new offsets are the exclusive scan
  of the truncated counts \<open>min(count(q), k(q))\<close>, so a query keeps exactly that many entries
  and a query without candidates keeps none; and the entries of a query, read as (index,
  rank) pairs, are the first \<open>k(q)\<close> elements of a list that holds exactly the
  candidates of the query and is sorted by ascending distance.
\<close>

theorem filterResults_keeps_nearest:
  assumes ok: "filter_ok getK queries distances indices offset ranks"
  shows "\<exists>new_indices new_offset new_ranks.
     filterResults getK queries distances indices offset ranks = Inr (new_indices, new_offset, new_ranks)
   \<and> length new_offset = length queries + 1
   \<and> new_offset = exclusive_scan
        (map (\<lambda>q. min (offset ! Suc q - offset ! q) (getK (queries ! q))) [0..<length queries] @ [0]) 0
   \<and> new_offset ! 0 = 0
   \<and> (\<forall>q < length queries.
         new_offset ! Suc q - new_offset ! q = min (offset ! Suc q - offset ! q) (getK (queries ! q)))
   \<and> int (length new_indices) = new_offset ! length queries
   \<and> int (length new_ranks) = new_offset ! length queries
   \<and> (\<forall>q < length queries. \<exists>ys.
         mset ys = mset (candidates distances indices offset ranks q)
       \<and> sorted (map snd ys)
       \<and> map (\<lambda>j. (new_indices ! j, new_ranks ! j)) [nat (new_offset ! q)..<nat (new_offset ! Suc q)]
           = map fst (take (nat (getK (queries ! q))) ys))"
proof -
  let ?n = "length queries"
  let ?no = "new_offsets getK queries offset"
  let ?ps = "nearest getK queries distances indices offset ranks"
  let ?cs = "candidates distances indices offset ranks"
  note n = new_offsets_props [OF ok]
  from filterResults_run [OF ok] obtain ni nr
    where 1: "filterResults getK queries distances indices offset ranks = Inr (ni, ?no, nr)"
      and len: "int (length ni) = last ?no" "int (length nr) = last ?no"
      and nth: "\<And>q j. q < ?n \<Longrightarrow> j < length (?ps q) \<Longrightarrow>
           ni ! (nat (?no ! q) + j) = fst (fst (?ps q ! j))
           \<and> nr ! (nat (?no ! q) + j) = snd (fst (?ps q ! j))"
    by blast
  have 2: "length ?no = ?n + 1"
    using n(1) by simp
  have 3: "?no = exclusive_scan
        (map (\<lambda>q. min (offset ! Suc q - offset ! q) (getK (queries ! q))) [0..<?n] @ [0]) 0"
    by (simp add: new_offsets_def kept_def [abs_def])
  have 5: "\<forall>q < ?n. ?no ! Suc q - ?no ! q = min (offset ! Suc q - offset ! q) (getK (queries ! q))"
    using n(3) by (simp add: kept_def)
  have 6: "int (length ni) = ?no ! ?n" and 7: "int (length nr) = ?no ! ?n"
    using len csr_last [OF n(4)] by simp_all
  have 8: "\<forall>q < ?n. \<exists>ys. mset ys = mset (?cs q) \<and> sorted (map snd ys)
       \<and> map (\<lambda>j. (ni ! j, nr ! j)) [nat (?no ! q)..<nat (?no ! Suc q)]
           = map fst (take (nat (getK (queries ! q))) ys)"
  proof (intro allI impI)
    fix q
    assume q: "q < ?n"
    let ?ys = "popped (length (?cs q)) (?cs q)"
    have tk: "take (nat (getK (queries ! q))) ?ys = ?ps q"
      unfolding nearest_def by (rule popped_take [symmetric])
    have "?no ! Suc q = ?no ! q + int (length (?ps q))" "0 \<le> ?no ! q"
      using n(3) [OF q] length_nearest [OF ok q] csr_nonneg [OF n(4), of q] q by simp_all
    then have d: "nat (?no ! Suc q) - nat (?no ! q) = length (?ps q)"
      by linarith
    have "map (\<lambda>j. (ni ! j, nr ! j)) [nat (?no ! q)..<nat (?no ! Suc q)] = map fst (?ps q)"
    proof (rule nth_equalityI)
      show "length (map (\<lambda>j. (ni ! j, nr ! j)) [nat (?no ! q)..<nat (?no ! Suc q)])
          = length (map fst (?ps q))"
        using d by simp
    next
      fix j
      assume "j < length (map (\<lambda>j. (ni ! j, nr ! j)) [nat (?no ! q)..<nat (?no ! Suc q)])"
      then have j: "j < length (?ps q)"
        using d by simp
      with d have "[nat (?no ! q)..<nat (?no ! Suc q)] ! j = nat (?no ! q) + j"
        by simp
      with j d nth [OF q j]
      show "map (\<lambda>j. (ni ! j, nr ! j)) [nat (?no ! q)..<nat (?no ! Suc q)] ! j = map fst (?ps q) ! j"
        by (simp add: prod_eq_iff)
    qed
    then have "map (\<lambda>j. (ni ! j, nr ! j)) [nat (?no ! q)..<nat (?no ! Suc q)]
        = map fst (take (nat (getK (queries ! q))) ?ys)"
      by (simp only: tk)
    moreover have "mset ?ys = mset (?cs q)"
      by (rule mset_popped) simp
    moreover have "sorted (map snd ?ys)"
      by (rule sorted_popped)
    ultimately show "\<exists>ys. mset ys = mset (?cs q) \<and> sorted (map snd ys)
       \<and> map (\<lambda>j. (ni ! j, nr ! j)) [nat (?no ! q)..<nat (?no ! Suc q)]
           = map fst (take (nat (getK (queries ! q))) ys)"
      by blast
  qed
  from 1 2 3 n(2) 5 6 7 8 show ?thesis
    by (intro exI [of _ ni] exI [of _ ?no] exI [of _ nr] conjI)
qed

theorem filterResults_keeps_nearest_witness:
  "filter_ok (\<lambda>k. k) [3 :: int] [10, 40, 20, 5 :: int] [100, 101, 102, 103] [0, 4] [1, 1, 3, 3]
   \<and> filterResults (\<lambda>k. k) [3 :: int] [10, 40, 20, 5 :: int] [100, 101, 102, 103] [0, 4] [1, 1, 3, 3]
       = Inr ([103, 100, 102], [0, 3], [3, 1, 3])
   \<and> filterResults (\<lambda>k. k) [3, 1, 2 :: int] [10, 40, 20, 5, 7, 7 :: int]
         [100, 101, 102, 103, 104, 105] [0, 4, 4, 6] [1, 1, 3, 3, 2, 0]
       = Inr ([103, 100, 102, 104, 105], [0, 3, 3, 5], [3, 1, 3, 2, 0])"
proof -
  have a: "filter_ok (\<lambda>k. k) [3 :: int] [10, 40, 20, 5 :: int] [100, 101, 102, 103] [0, 4] [1, 1, 3, 3]"
    by code_simp
  have b: "filterResults (\<lambda>k. k) [3 :: int] [10, 40, 20, 5 :: int] [100, 101, 102, 103] [0, 4] [1, 1, 3, 3]
       = Inr ([103, 100, 102], [0, 3], [3, 1, 3])"
    by code_simp
  have c: "filterResults (\<lambda>k. k) [3, 1, 2 :: int] [10, 40, 20, 5, 7, 7 :: int]
         [100, 101, 102, 103, 104, 105] [0, 4, 4, 6] [1, 1, 3, 3, 2, 0]
       = Inr ([103, 100, 102, 104, 105], [0, 3, 3, 5], [3, 1, 3, 2, 0])"
    by code_simp
  from filterResults_keeps_nearest [OF a] a b c show ?thesis
    by (intro conjI)
qed

end
